theory Spec2Isabelle
  imports Complex_Main "HOL-Library.Log_Nat"
begin


section \<open>Commit-habit gist updater: collector and renderer\<close>

text \<open>
  The repository holds four near-duplicate variants of one script. They are referred to as
  \<^item> \<open>v1\<close>: \<^verbatim>\<open>src/script/update_gist.js\<close> (public events, one request);
  \<^item> \<open>v2\<close>: \<^verbatim>\<open>src/unnamed/part_000\<close> (authenticated events, three pages, count fallbacks);
  \<^item> \<open>v3\<close>: first script of \<^verbatim>\<open>src/unnamed/part_001\<close> (commit search, dayjs);
  \<^item> \<open>v4\<close>: second script of \<^verbatim>\<open>src/unnamed/part_001\<close> (commit search, date-fns).
  Counters are natural numbers. The remote API is a parameter: a response is either an
  error (the awaited call throws) or the decoded body.
\<close>

subsection \<open>Data model\<close>

record stats =
  morning :: nat
  daytime :: nat
  evening :: nat
  night :: nat
  total :: nat

text \<open>The accumulator of \<open>v3\<close> has no \<open>total\<close> field; it is added on return.\<close>

record buckets =
  b_morning :: nat
  b_daytime :: nat
  b_evening :: nat
  b_night :: nat

type_synonym commit = string

text \<open>
  The payload of an event. \<open>commits\<close> is \<open>Some cs\<close> when the field holds an array and
  \<open>None\<close> when it is absent; the two numeric fields are \<open>None\<close> when absent.
\<close>

record payload =
  commits :: "commit list option"
  size_field :: "nat option"
  distinct_size :: "nat option"

text \<open>
  An event. \<open>hour\<close> is what \<^verbatim>\<open>utcToZonedTime(new Date(created_at), TIME_ZONE).getHours()\<close>
  yields; the timezone library is outside the model. An unparsable date gives NaN, which
  fails every comparison just as an out-of-range integer does.
\<close>

record event =
  etype :: string
  epayload :: "payload option"
  hour :: int

record item =
  author_hour :: int

record search_result =
  total_count :: nat
  items :: "item list option"

datatype api_error = HttpError nat

record api =
  getAuthenticated :: "api_error + string"
  listPublicEventsForUser :: "string \<Rightarrow> api_error + event list"
  listEventsForAuthenticatedUser :: "string \<Rightarrow> nat \<Rightarrow> api_error + event list"
  searchCommits :: "string \<Rightarrow> nat \<Rightarrow> api_error + search_result"

definition zero_stats :: stats where
  "zero_stats = \<lparr>morning = 0, daytime = 0, evening = 0, night = 0, total = 0\<rparr>"

definition zero_buckets :: buckets where
  "zero_buckets = \<lparr>b_morning = 0, b_daytime = 0, b_evening = 0, b_night = 0\<rparr>"

subsection \<open>Commit count of a push event\<close>

text \<open>\<^verbatim>\<open>a || b\<close> for a numeric field \<open>a\<close> that may be absent: absent and 0 are falsy.\<close>

definition js_or :: "nat option \<Rightarrow> nat \<Rightarrow> nat" where
  "js_or a b = (case a of None \<Rightarrow> b | Some n \<Rightarrow> if n = 0 then b else n)"

text \<open>\<open>v1\<close>: \<^verbatim>\<open>(event.payload?.commits || []).length\<close>.\<close>

definition commitCount_v1 :: "event \<Rightarrow> nat" where
  "commitCount_v1 e =
     (case epayload e of
        None \<Rightarrow> length ([] :: commit list)
      | Some p \<Rightarrow> (case commits p of None \<Rightarrow> length ([] :: commit list) | Some cs \<Rightarrow> length cs))"

text \<open>
  \<open>v2\<close>: \<^verbatim>\<open>payload = event.payload || {}\<close>, then the array's length when it is a non-empty
  array, else \<^verbatim>\<open>payload.size || payload.distinct_size || 1\<close>.
\<close>

definition empty_payload :: payload where
  "empty_payload = \<lparr>commits = None, size_field = None, distinct_size = None\<rparr>"

definition commitCount_v2 :: "event \<Rightarrow> nat" where
  "commitCount_v2 e =
     (let p = (case epayload e of None \<Rightarrow> empty_payload | Some q \<Rightarrow> q)
      in if (case commits p of None \<Rightarrow> False | Some cs \<Rightarrow> length cs > 0)
         then length (the (commits p))
         else js_or (size_field p) (js_or (distinct_size p) 1))"

subsection \<open>Hour classification\<close>

text \<open>The \<^verbatim>\<open>if / else if\<close> chain of the event variants, adding \<open>n\<close> to one bucket.\<close>

definition addToBucket :: "int \<Rightarrow> nat \<Rightarrow> stats \<Rightarrow> stats" where
  "addToBucket h n s =
     (if h \<ge> 6 \<and> h < 12 then s\<lparr>morning := morning s + n\<rparr>
      else if h \<ge> 12 \<and> h < 18 then s\<lparr>daytime := daytime s + n\<rparr>
      else if h \<ge> 18 \<and> h < 24 then s\<lparr>evening := evening s + n\<rparr>
      else s\<lparr>night := night s + n\<rparr>)"

text \<open>The same chain in \<open>v3\<close>, on the accumulator without \<open>total\<close>, adding one.\<close>

definition incBucket :: "int \<Rightarrow> buckets \<Rightarrow> buckets" where
  "incBucket h s =
     (if h \<ge> 6 \<and> h < 12 then s\<lparr>b_morning := b_morning s + 1\<rparr>
      else if h \<ge> 12 \<and> h < 18 then s\<lparr>b_daytime := b_daytime s + 1\<rparr>
      else if h \<ge> 18 \<and> h < 24 then s\<lparr>b_evening := b_evening s + 1\<rparr>
      else s\<lparr>b_night := b_night s + 1\<rparr>)"

subsection \<open>Loop bodies\<close>

definition countEvent_v1 :: "stats \<Rightarrow> event \<Rightarrow> stats" where
  "countEvent_v1 s e =
     (if etype e = ''PushEvent''
      then (let commitCount = commitCount_v1 e
            in addToBucket (hour e) commitCount (s\<lparr>total := total s + commitCount\<rparr>))
      else s)"

definition countEvent_v2 :: "stats \<Rightarrow> event \<Rightarrow> stats" where
  "countEvent_v2 s e =
     (if etype e = ''PushEvent''
      then (let commitCount = commitCount_v2 e
            in addToBucket (hour e) commitCount (s\<lparr>total := total s + commitCount\<rparr>))
      else s)"

definition countItem_v3 :: "buckets \<Rightarrow> item \<Rightarrow> buckets" where
  "countItem_v3 s i = incBucket (author_hour i) s"

definition countItem_v4 :: "stats \<Rightarrow> item \<Rightarrow> stats" where
  "countItem_v4 s i = addToBucket (author_hour i) 1 (s\<lparr>total := total s + 1\<rparr>)"

subsection \<open>The collectors\<close>

text \<open>\<^verbatim>\<open>GH_USERNAME || user.login\<close>: an unset or empty variable is falsy.\<close>

definition pick_username :: "string option \<Rightarrow> string \<Rightarrow> string" where
  "pick_username env login = (case env of None \<Rightarrow> login | Some u \<Rightarrow> if u = [] then login else u)"

text \<open>
  Every collector returns the list of page numbers it requested, oldest first, next to its
  result; the list is an observation of the run and does not influence it.
\<close>

text \<open>\<open>v1\<close>: one request, no page loop. An unset \<^verbatim>\<open>GH_USERNAME\<close> is passed on as it is.\<close>

definition getCommitTimes_v1 :: "api \<Rightarrow> string \<Rightarrow> api_error + stats" where
  "getCommitTimes_v1 a username =
     (case listPublicEventsForUser a username of
        Inl err \<Rightarrow> Inl err
      | Inr events \<Rightarrow> Inr (foldl countEvent_v1 zero_stats events))"

text \<open>\<open>v2\<close>: \<^verbatim>\<open>for (let page = 1; page <= 3; page++)\<close>, leaving at the first empty page.\<close>

function pages_v2 ::
  "(nat \<Rightarrow> api_error + event list) \<Rightarrow> nat \<Rightarrow> nat list \<Rightarrow> stats \<Rightarrow> nat list \<times> (api_error + stats)"
where
  "pages_v2 fetch page asked s =
     (if page \<le> 3 then
        (case fetch page of
           Inl err \<Rightarrow> (asked @ [page], Inl err)
         | Inr events \<Rightarrow>
             if length events = 0 then (asked @ [page], Inr s)
             else pages_v2 fetch (page + 1) (asked @ [page]) (foldl countEvent_v2 s events))
      else (asked, Inr s))"
  by pat_completeness auto
termination
  by (relation "measure (\<lambda>(fetch, page, asked, s). 4 - page)") auto

definition getCommitTimes_v2 :: "api \<Rightarrow> string option \<Rightarrow> nat list \<times> (api_error + stats)" where
  "getCommitTimes_v2 a env =
     (case getAuthenticated a of
        Inl err \<Rightarrow> ([], Inl err)
      | Inr login \<Rightarrow>
          pages_v2 (listEventsForAuthenticatedUser a (pick_username env login)) 1 [] zero_stats)"

text \<open>
  \<open>v3\<close>: \<^verbatim>\<open>MAX_PAGES = 10\<close>, \<^verbatim>\<open>PER_PAGE = 100\<close>; \<^verbatim>\<open>items = data.items || []\<close>; the loop is left
  on an empty batch before counting and on a short batch after counting.
\<close>

definition MAX_PAGES :: nat where "MAX_PAGES = 10"
definition PER_PAGE :: nat where "PER_PAGE = 100"
definition BAR_WIDTH :: nat where "BAR_WIDTH = 20"

definition items_or_empty :: "search_result \<Rightarrow> item list" where
  "items_or_empty d = (case items d of None \<Rightarrow> [] | Some xs \<Rightarrow> xs)"

function pages_v3 ::
  "(nat \<Rightarrow> api_error + search_result) \<Rightarrow> nat \<Rightarrow> nat list \<Rightarrow> buckets \<Rightarrow> nat list \<times> (api_error + buckets)"
where
  "pages_v3 fetch page asked s =
     (if page \<le> MAX_PAGES then
        (case fetch page of
           Inl err \<Rightarrow> (asked @ [page], Inl err)
         | Inr d \<Rightarrow>
             (let its = items_or_empty d in
              if length its = 0 then (asked @ [page], Inr s)
              else (let s' = foldl countItem_v3 s its in
                    if length its < PER_PAGE then (asked @ [page], Inr s')
                    else pages_v3 fetch (page + 1) (asked @ [page]) s')))
      else (asked, Inr s))"
  by pat_completeness auto
termination
  by (relation "measure (\<lambda>(fetch, page, asked, s). Suc MAX_PAGES - page)") auto

definition with_total :: "buckets \<Rightarrow> stats" where
  "with_total s =
     (let total = b_morning s + b_daytime s + b_evening s + b_night s
      in \<lparr>morning = b_morning s, daytime = b_daytime s, evening = b_evening s,
          night = b_night s, total = total\<rparr>)"

definition getCommitTimes_v3 :: "api \<Rightarrow> string option \<Rightarrow> nat list \<times> (api_error + stats)" where
  "getCommitTimes_v3 a env =
     (case getAuthenticated a of
        Inl err \<Rightarrow> ([], Inl err)
      | Inr login \<Rightarrow>
          (case pages_v3 (searchCommits a (pick_username env login)) 1 [] zero_buckets of
             (asked, Inl err) \<Rightarrow> (asked, Inl err)
           | (asked, Inr s) \<Rightarrow> (asked, Inr (with_total s))))"

text \<open>\<open>v4\<close>: the same loop with literal bounds 10 and 100 and an accumulated \<open>total\<close>.\<close>

function pages_v4 ::
  "(nat \<Rightarrow> api_error + search_result) \<Rightarrow> nat \<Rightarrow> nat list \<Rightarrow> stats \<Rightarrow> nat list \<times> (api_error + stats)"
where
  "pages_v4 fetch page asked s =
     (if page \<le> 10 then
        (case fetch page of
           Inl err \<Rightarrow> (asked @ [page], Inl err)
         | Inr d \<Rightarrow>
             (let its = items_or_empty d in
              if length its = 0 then (asked @ [page], Inr s)
              else (let s' = foldl countItem_v4 s its in
                    if length its < 100 then (asked @ [page], Inr s')
                    else pages_v4 fetch (page + 1) (asked @ [page]) s')))
      else (asked, Inr s))"
  by pat_completeness auto
termination
  by (relation "measure (\<lambda>(fetch, page, asked, s). 11 - page)") auto

definition getCommitTimes_v4 :: "api \<Rightarrow> string option \<Rightarrow> nat list \<times> (api_error + stats)" where
  "getCommitTimes_v4 a env =
     (case getAuthenticated a of
        Inl err \<Rightarrow> ([], Inl err)
      | Inr login \<Rightarrow>
          pages_v4 (searchCommits a (pick_username env login)) 1 [] zero_stats)"

text \<open>The invariant of the statistics record.\<close>

definition balanced :: "stats \<Rightarrow> bool" where
  "balanced s \<longleftrightarrow> total s = morning s + daytime s + evening s + night s"


section \<open>The renderer\<close>

subsection \<open>Numbers\<close>

text \<open>
  A JavaScript number is an IEEE 754 binary64 value. The numbers of the renderer are finite,
  so a number is represented by the rational it denotes, and an arithmetic operation is the
  exact operation followed by \<open>fl\<close>, rounding to the nearest binary64 value with ties to
  the even significand. \<open>fl\<close> covers the normal and the subnormal range; overflow to
  infinity (magnitudes from \<open>2^1024\<close> on) is outside the model. Counters are naturals and
  enter the arithmetic unrounded, which is what JavaScript does below \<open>2^53\<close>.
\<close>

text \<open>\<open>expo2 q\<close> is the integer \<open>e\<close> with \<open>2^e \<le> q < 2^(e+1)\<close>, for positive \<open>q\<close>.\<close>

definition expo2 :: "rat \<Rightarrow> int" where
  "expo2 q =
     (if 1 \<le> q then int (floorlog 2 (nat \<lfloor>q\<rfloor>)) - 1
      else (let k = int (floorlog 2 (nat \<lfloor>1 / q\<rfloor>))
            in if 2 powi (1 - k) \<le> q then 1 - k else - k))"

text \<open>Rounding to the nearest integer, ties to even.\<close>

definition rne :: "rat \<Rightarrow> int" where
  "rne y =
     (let f = \<lfloor>y\<rfloor>; r = y - of_int f
      in if r < 1 / 2 then f else if 1 / 2 < r then f + 1 else if even f then f else f + 1)"

definition fl :: "rat \<Rightarrow> rat" where
  "fl q =
     (if q = 0 then 0
      else (let e = max (expo2 \<bar>q\<bar> - 52) (- 1074)
            in of_int (rne (q / 2 powi e)) * 2 powi e))"

text \<open>\<^verbatim>\<open>Math.round\<close>: the nearest integer, ties towards plus infinity.\<close>

definition jsround :: "rat \<Rightarrow> int" where
  "jsround x = \<lfloor>x + 1 / 2\<rfloor>"

subsection \<open>Strings\<close>

text \<open>
  A JavaScript string is a sequence of UTF-16 code units, here natural numbers; \<open>asc\<close>
  embeds an ASCII literal. \<open>length\<close> is then the \<^verbatim>\<open>.length\<close> of the scripts.
\<close>

type_synonym jstring = "nat list"

definition asc :: "string \<Rightarrow> jstring" where
  "asc s = map of_char s"

definition NL :: jstring where "NL = [10]"

text \<open>The two bar glyphs, U+2588 and U+2591, and the four emoji of the labels.\<close>

definition FULL :: jstring where "FULL = [9608]"
definition SHADE :: jstring where "SHADE = [9617]"
definition SUN :: jstring where "SUN = [55356, 57118]"
definition CITY :: jstring where "CITY = [55356, 57305, 65039]"
definition DUSK :: jstring where "DUSK = [55356, 57094]"
definition MOON :: jstring where "MOON = [55356, 57113]"

text \<open>\<^verbatim>\<open>String(n)\<close> for a counter \<open>n\<close> (decimal digits; exact below \<open>10^21\<close>).\<close>

fun digits :: "nat \<Rightarrow> jstring" where
  "digits n = (if n < 10 then [48 + n] else digits (n div 10) @ [48 + n mod 10])"

definition is_digit :: "nat \<Rightarrow> bool" where
  "is_digit u \<longleftrightarrow> 48 \<le> u \<and> u \<le> 57"

definition digits_value :: "jstring \<Rightarrow> nat" where
  "digits_value ds = foldl (\<lambda>a u. 10 * a + (u - 48)) 0 ds"

text \<open>
  \<^verbatim>\<open>x.toFixed(1)\<close> after ECMA-262: the sign, then the integer \<open>n\<close> nearest to \<open>10 x\<close>
  (the larger one on a tie) written in decimal, padded with a zero to two digits, with a
  point before the last digit. Arguments from \<open>10^21\<close> on are outside the model.
\<close>

definition toFixed1 :: "rat \<Rightarrow> jstring" where
  "toFixed1 x0 =
     (let s = (if x0 < 0 then asc ''-'' else []);
          x = (if x0 < 0 then - x0 else x0);
          n = nat \<lfloor>x * 10 + 1 / 2\<rfloor>;
          m = (if n = 0 then asc ''0'' else digits n);
          k = length m;
          m' = (if k \<le> 1 then replicate (1 + 1 - k) 48 @ m else m);
          k' = (if k \<le> 1 then 1 + 1 else k);
          a = take (k' - 1) m';
          b = drop (k' - 1) m'
      in s @ a @ asc ''.'' @ b)"

text \<open>
  \<^verbatim>\<open>ToNumber\<close> of a string, for the decimal literals without exponent: an optional sign,
  digits, an optional point and digits. The empty string is 0. \<open>None\<close> is NaN; the other
  literal forms (exponents, \<^verbatim>\<open>Infinity\<close>, radix prefixes, surrounding white space) are not
  produced by the scripts and are not distinguished from NaN.
\<close>

definition parseNumber :: "jstring \<Rightarrow> rat option" where
  "parseNumber s =
     (let neg = (s \<noteq> [] \<and> hd s = 45);
          body = (if s \<noteq> [] \<and> (hd s = 45 \<or> hd s = 43) then tl s else s);
          ip = takeWhile is_digit body;
          rest = dropWhile is_digit body;
          fp = (if rest \<noteq> [] \<and> hd rest = 46 then tl rest else []);
          ok = ((rest = [] \<or> hd rest = 46) \<and> list_all is_digit fp \<and> (ip \<noteq> [] \<or> fp \<noteq> []));
          v = fl (of_nat (digits_value (ip @ fp)) / 10 ^ length fp)
      in if s = [] then Some 0 else if ok then Some (if neg then - v else v) else None)"

text \<open>\<^verbatim>\<open>s.repeat(count)\<close> for an integral count: a negative count throws.\<close>

datatype js_error = RangeError

definition repeat :: "jstring \<Rightarrow> int \<Rightarrow> js_error + jstring" where
  "repeat s count = (if count < 0 then Inl RangeError else Inr (concat (replicate (nat count) s)))"

definition padStart :: "nat \<Rightarrow> jstring \<Rightarrow> jstring" where
  "padStart w s = replicate (w - length s) 32 @ s"

definition padEnd :: "nat \<Rightarrow> jstring \<Rightarrow> jstring" where
  "padEnd w s = s @ replicate (w - length s) 32"


subsection \<open>Percent and bar\<close>

text \<open>
  \<open>getPercent\<close> of \<open>v1\<close>, \<open>v2\<close> and \<open>v4\<close> (the three texts are identical) returns the number
  literal \<^verbatim>\<open>0\<close> when the total is 0 and the string of \<^verbatim>\<open>toFixed(1)\<close> otherwise.
\<close>

datatype percent = Zero | Text jstring

definition toNumber :: "percent \<Rightarrow> rat option" where
  "toNumber p = (case p of Zero \<Rightarrow> Some 0 | Text s \<Rightarrow> parseNumber s)"

definition toString :: "percent \<Rightarrow> jstring" where
  "toString p = (case p of Zero \<Rightarrow> asc ''0'' | Text s \<Rightarrow> s)"

definition getPercent :: "stats \<Rightarrow> nat \<Rightarrow> percent" where
  "getPercent st num =
     (if total st = 0 then Zero
      else Text (toFixed1 (fl (fl (of_nat num / of_nat (total st)) * 100))))"

text \<open>In \<open>v3\<close> \<^verbatim>\<open>toFixed(1)\<close> is applied to both branches.\<close>

definition getPercent_v3 :: "stats \<Rightarrow> nat \<Rightarrow> jstring" where
  "getPercent_v3 st num =
     toFixed1 (if total st = 0 then 0 else fl (fl (of_nat num / of_nat (total st)) * 100))"

text \<open>
  \<open>getBar\<close> of \<open>v1\<close>, \<open>v2\<close> and \<open>v4\<close>: \<^verbatim>\<open>Math.round(percent / 5)\<close>. The division converts its
  argument to a number. With NaN both repeat counts are NaN, which \<^verbatim>\<open>repeat\<close> reads as 0.
\<close>

definition bar_of :: "int \<Rightarrow> int \<Rightarrow> js_error + jstring" where
  "bar_of filled width =
     (case repeat FULL filled of
        Inl err \<Rightarrow> Inl err
      | Inr a \<Rightarrow> (case repeat SHADE (width - filled) of
                    Inl err \<Rightarrow> Inl err
                  | Inr b \<Rightarrow> Inr (a @ b)))"

definition getBar :: "percent \<Rightarrow> js_error + jstring" where
  "getBar percent =
     (case toNumber percent of
        None \<Rightarrow> Inr []
      | Some p \<Rightarrow> (let filled = jsround (fl (p / 5)) in bar_of filled 20))"

text \<open>\<open>v3\<close>: \<^verbatim>\<open>Math.round((percent / 100) * BAR_WIDTH)\<close>.\<close>

definition getBar_v3 :: "jstring \<Rightarrow> js_error + jstring" where
  "getBar_v3 percent =
     (case parseNumber percent of
        None \<Rightarrow> Inr []
      | Some p \<Rightarrow> (let filled = jsround (fl (fl (p / 100) * of_nat BAR_WIDTH))
                   in bar_of filled (int BAR_WIDTH)))"

subsection \<open>The text block\<close>

text \<open>
  What the scripts act on besides the remote API: the clock read by \<^verbatim>\<open>new Date()\<close> (or
  \<^verbatim>\<open>dayjs()\<close>), in milliseconds, and the content of the gist file. Formatting an instant in
  the fixed timezone is the date library's work and is a parameter \<open>fmt\<close>.
\<close>

record world =
  clock :: nat
  gist :: "jstring option"

text \<open>Rows are produced in order; the first exception ends the rendering.\<close>

fun collect :: "(js_error + jstring) list \<Rightarrow> js_error + jstring list" where
  "collect [] = Inr []"
| "collect (r # rs) =
     (case r of
        Inl err \<Rightarrow> Inl err
      | Inr x \<Rightarrow> (case collect rs of Inl err \<Rightarrow> Inl err | Inr xs \<Rightarrow> Inr (x # xs)))"

fun join :: "jstring \<Rightarrow> jstring list \<Rightarrow> jstring" where
  "join sep [] = []"
| "join sep [x] = x"
| "join sep (x # y # ys) = x @ sep @ join sep (y # ys)"

text \<open>\<open>v1\<close>: one template literal with four rows and the time stamp.\<close>

definition row_v1 :: "jstring \<Rightarrow> stats \<Rightarrow> nat \<Rightarrow> js_error + jstring" where
  "row_v1 label st count =
     (case getBar (getPercent st count) of
        Inl err \<Rightarrow> Inl err
      | Inr bar \<Rightarrow>
          Inr (label @ digits count @ asc '' commits    '' @ bar @ asc ''    '' @
               toString (getPercent st count) @ asc ''%''))"

definition generateMarkdown_v1 ::
  "(nat \<Rightarrow> jstring) \<Rightarrow> stats \<Rightarrow> world \<Rightarrow> (js_error + jstring) \<times> world"
where
  "generateMarkdown_v1 fmt st w =
     (let now = clock w;
          updateTime = fmt now
      in (case collect
               [row_v1 (SUN @ asc '' Morning    '') st (morning st),
                row_v1 (CITY @ asc '' Daytime    '') st (daytime st),
                row_v1 (DUSK @ asc '' Evening    '') st (evening st),
                row_v1 (MOON @ asc '' Night      '') st (night st)] of
            Inl err \<Rightarrow> Inl err
          | Inr rows \<Rightarrow>
              Inr (join NL rows @ NL @ asc ''> Last Updated: '' @ updateTime @ NL),
          w))"

text \<open>\<open>v2\<close>, \<open>v3\<close>, \<open>v4\<close>: a table of rows with aligned columns.\<close>

definition lines :: "stats \<Rightarrow> (jstring \<times> jstring \<times> nat) list" where
  "lines st =
     [(SUN, asc ''Morning'', morning st),
      (CITY, asc ''Daytime'', daytime st),
      (DUSK, asc ''Evening'', evening st),
      (MOON, asc ''Night'', night st)]"

definition countWidth :: "stats \<Rightarrow> nat" where
  "countWidth st = foldl max 3 (map (\<lambda>(emoji, label, count). length (digits count)) (lines st))"

definition row_v2 :: "stats \<Rightarrow> jstring \<times> jstring \<times> nat \<Rightarrow> js_error + jstring" where
  "row_v2 st l =
     (case l of (emoji, label, count) \<Rightarrow>
        (let percent = getPercent st count;
             col1 = emoji @ asc '' '' @ padEnd 7 label;
             col2 = padStart (countWidth st) (digits count) @ asc '' commits''
         in (case getBar percent of
               Inl err \<Rightarrow> Inl err
             | Inr col3 \<Rightarrow>
                 (let col4 = padStart 5 (toString percent) @ asc ''%''
                  in Inr (col1 @ asc ''   '' @ col2 @ asc ''   '' @ col3 @ asc ''   '' @ col4)))))"

definition row_v3 :: "stats \<Rightarrow> jstring \<times> jstring \<times> nat \<Rightarrow> js_error + jstring" where
  "row_v3 st l =
     (case l of (emoji, label, count) \<Rightarrow>
        (let percent = getPercent_v3 st count;
             col1 = emoji @ asc '' '' @ padEnd 7 label;
             col2 = padStart (countWidth st) (digits count) @ asc '' commits''
         in (case getBar_v3 percent of
               Inl err \<Rightarrow> Inl err
             | Inr col3 \<Rightarrow> Inr (col1 @ asc ''   '' @ col2 @ asc ''   '' @ col3))))"

definition row_v4 :: "stats \<Rightarrow> jstring \<times> jstring \<times> nat \<Rightarrow> js_error + jstring" where
  "row_v4 st l =
     (case l of (emoji, label, count) \<Rightarrow>
        (let percent = getPercent st count;
             col1 = emoji @ asc '' '' @ padEnd 7 label;
             col2 = padStart (countWidth st) (digits count) @ asc '' commits''
         in (case getBar percent of
               Inl err \<Rightarrow> Inl err
             | Inr col3 \<Rightarrow> Inr (col1 @ asc ''   '' @ col2 @ asc ''   '' @ col3))))"

definition table ::
  "(jstring \<times> jstring \<times> nat \<Rightarrow> js_error + jstring) \<Rightarrow> (nat \<Rightarrow> jstring) \<Rightarrow> stats \<Rightarrow> world \<Rightarrow>
     (js_error + jstring) \<times> world"
where
  "table row fmt st w =
     (let updateTime = fmt (clock w)
      in (case collect (map row (lines st)) of
            Inl err \<Rightarrow> Inl err
          | Inr rows \<Rightarrow>
              Inr (join NL rows @ NL @ asc ''> Last Updated: '' @ updateTime @ NL),
          w))"

definition generateMarkdown_v2 ::
  "(nat \<Rightarrow> jstring) \<Rightarrow> stats \<Rightarrow> world \<Rightarrow> (js_error + jstring) \<times> world"
where
  "generateMarkdown_v2 fmt st w = table (row_v2 st) fmt st w"

definition generateMarkdown_v3 ::
  "(nat \<Rightarrow> jstring) \<Rightarrow> stats \<Rightarrow> world \<Rightarrow> (js_error + jstring) \<times> world"
where
  "generateMarkdown_v3 fmt st w = table (row_v3 st) fmt st w"

definition generateMarkdown_v4 ::
  "(nat \<Rightarrow> jstring) \<Rightarrow> stats \<Rightarrow> world \<Rightarrow> (js_error + jstring) \<times> world"
where
  "generateMarkdown_v4 fmt st w = table (row_v4 st) fmt st w"

text \<open>
  \<open>updateGist\<close> overwrites the gist file when the remote call succeeds; \<open>answer\<close> is what
  the remote call returns.
\<close>

definition updateGist :: "api_error + unit \<Rightarrow> jstring \<Rightarrow> world \<Rightarrow> (api_error + unit) \<times> world" where
  "updateGist answer content w =
     (case answer of
        Inl err \<Rightarrow> (Inl err, w)
      | Inr u \<Rightarrow> (Inr u, w\<lparr>gist := Some content\<rparr>))"


subsection \<open>Auxiliary notions\<close>

text \<open>
  The number of tenths that \<^verbatim>\<open>toFixed(1)\<close> displays for a non-negative argument: the integer
  nearest to \<open>10 x\<close>, the larger one on a tie.
\<close>

definition tenths :: "rat \<Rightarrow> nat" where
  "tenths x = nat \<lfloor>x * 10 + 1 / 2\<rfloor>"


subsection \<open>Sample inputs\<close>

definition sample_events :: "event list" where
  "sample_events =
     [\<lparr>etype = ''PushEvent'',
       epayload = Some \<lparr>commits = Some [''a1'', ''b2''], size_field = Some 2, distinct_size = Some 2\<rparr>,
       hour = 7\<rparr>,
      \<lparr>etype = ''PushEvent'',
       epayload = Some \<lparr>commits = None, size_field = Some 3, distinct_size = Some 3\<rparr>,
       hour = 13\<rparr>,
      \<lparr>etype = ''WatchEvent'', epayload = None, hour = 20\<rparr>,
      \<lparr>etype = ''PushEvent'', epayload = None, hour = 23\<rparr>]"

definition sample_search :: "nat \<Rightarrow> api_error + search_result" where
  "sample_search page =
     (if page = 1 then Inr \<lparr>total_count = 101, items = Some (replicate 100 \<lparr>author_hour = 9\<rparr>)\<rparr>
      else Inr \<lparr>total_count = 101, items = Some [\<lparr>author_hour = 20\<rparr>]\<rparr>)"

definition sample_listing :: "nat \<Rightarrow> api_error + event list" where
  "sample_listing page = (if page = 1 then Inr sample_events else Inr [])"

definition sample_api :: api where
  "sample_api =
     \<lparr>getAuthenticated = Inr ''octocat'',
      listPublicEventsForUser = (\<lambda>u. Inr sample_events),
      listEventsForAuthenticatedUser = (\<lambda>u. sample_listing),
      searchCommits = (\<lambda>u. sample_search)\<rparr>"

text \<open>
  The statistics of the spec's example; statistics whose morning share, 23 of 80, is
  28.75 percent exactly; a world; a time format.
\<close>

definition example_stats :: stats where
  "example_stats = \<lparr>morning = 2, daytime = 1, evening = 1, night = 0, total = 4\<rparr>"

definition skewed_stats :: stats where
  "skewed_stats = \<lparr>morning = 23, daytime = 57, evening = 0, night = 0, total = 80\<rparr>"

definition quiet_world :: world where
  "quiet_world = \<lparr>clock = 1762128000000, gist = None\<rparr>"

definition stamp :: "nat \<Rightarrow> jstring" where
  "stamp t = digits t"


section \<open>Properties of the collector\<close>

declare pages_v2.simps [simp del] pages_v3.simps [simp del] pages_v4.simps [simp del]

subsection \<open>Commit count of a push event\<close>

text \<open>
  Claim C1 as written fails twice. In \<open>v2\<close> a commits array that is present but empty is
  not used: the count comes from the fallbacks (here 3, not 0). In \<open>v1\<close> there is no
  fallback at all: an event without a commits list and with \<open>size = 3\<close> contributes 0.
\<close>

theorem commitCount_counterexample:
  "commitCount_v2 \<lparr>etype = ''PushEvent'',
       epayload = Some \<lparr>commits = Some [], size_field = Some 3, distinct_size = None\<rparr>,
       hour = 9\<rparr> \<noteq> length ([] :: commit list) \<and>
   total (countEvent_v1 zero_stats \<lparr>etype = ''PushEvent'',
       epayload = Some \<lparr>commits = None, size_field = Some 3, distinct_size = None\<rparr>,
       hour = 9\<rparr>) \<noteq> 3"
  by (simp add: commitCount_v2_def js_or_def countEvent_v1_def commitCount_v1_def
      addToBucket_def zero_stats_def)

text \<open>
  Claim C1, amended. In \<open>v2\<close> the count is the length of the commits array when it is
  present and non-empty; otherwise the size field when present and nonzero; otherwise the
  distinct-size field when present and nonzero; otherwise 1 (also when the event has no
  payload). In \<open>v1\<close> the count is the length of the commits array, and 0 when it is absent.
  Every push event adds its count to \<open>total\<close>.
\<close>

theorem commitCount_fallback_chain:
  "commitCount_v2 (e\<lparr>epayload := Some \<lparr>commits = c, size_field = sz, distinct_size = ds\<rparr>\<rparr>) =
     (if c \<noteq> None \<and> c \<noteq> Some [] then length (the c)
      else if sz \<noteq> None \<and> sz \<noteq> Some 0 then the sz
      else if ds \<noteq> None \<and> ds \<noteq> Some 0 then the ds
      else 1) \<and>
   commitCount_v2 (e\<lparr>epayload := None\<rparr>) = 1 \<and>
   commitCount_v1 (e\<lparr>epayload := Some \<lparr>commits = c, size_field = sz, distinct_size = ds\<rparr>\<rparr>) =
     (if c \<noteq> None then length (the c) else 0) \<and>
   commitCount_v1 (e\<lparr>epayload := None\<rparr>) = 0 \<and>
   (etype e = ''PushEvent'' \<longrightarrow>
      total (countEvent_v2 s e) = total s + commitCount_v2 e \<and>
      total (countEvent_v1 s e) = total s + commitCount_v1 e)"
proof (intro conjI impI)
  show "commitCount_v2 (e\<lparr>epayload := Some \<lparr>commits = c, size_field = sz, distinct_size = ds\<rparr>\<rparr>) =
     (if c \<noteq> None \<and> c \<noteq> Some [] then length (the c)
      else if sz \<noteq> None \<and> sz \<noteq> Some 0 then the sz
      else if ds \<noteq> None \<and> ds \<noteq> Some 0 then the ds
      else 1)"
    by (cases c; cases sz; cases ds) (simp_all add: commitCount_v2_def js_or_def)
  show "commitCount_v2 (e\<lparr>epayload := None\<rparr>) = 1"
    by (simp add: commitCount_v2_def js_or_def empty_payload_def)
  show "commitCount_v1 (e\<lparr>epayload := Some \<lparr>commits = c, size_field = sz, distinct_size = ds\<rparr>\<rparr>) =
     (if c \<noteq> None then length (the c) else 0)"
    by (cases c) (simp_all add: commitCount_v1_def)
  show "commitCount_v1 (e\<lparr>epayload := None\<rparr>) = 0"
    by (simp add: commitCount_v1_def)
next
  assume push: "etype e = ''PushEvent''"
  show "total (countEvent_v2 s e) = total s + commitCount_v2 e"
    using push by (simp add: countEvent_v2_def addToBucket_def Let_def)
  show "total (countEvent_v1 s e) = total s + commitCount_v1 e"
    using push by (simp add: countEvent_v1_def addToBucket_def Let_def)
qed

text \<open>An event without a commits list and with \<open>size = 3\<close>: 3 in \<open>v2\<close>, 0 in \<open>v1\<close>.\<close>

theorem commitCount_fallback_chain_witness:
  "commitCount_v2 \<lparr>etype = ''PushEvent'',
       epayload = Some \<lparr>commits = None, size_field = Some 3, distinct_size = None\<rparr>,
       hour = 9\<rparr> = 3 \<and>
   total (countEvent_v2 zero_stats \<lparr>etype = ''PushEvent'',
       epayload = Some \<lparr>commits = None, size_field = Some 3, distinct_size = None\<rparr>,
       hour = 9\<rparr>) = 3 \<and>
   total (countEvent_v1 zero_stats \<lparr>etype = ''PushEvent'',
       epayload = Some \<lparr>commits = None, size_field = Some 3, distinct_size = None\<rparr>,
       hour = 9\<rparr>) = 0"
  using commitCount_fallback_chain[where e = "\<lparr>etype = ''PushEvent'',
       epayload = Some \<lparr>commits = None, size_field = Some 3, distinct_size = None\<rparr>,
       hour = 9\<rparr>" and c = None and sz = "Some 3" and ds = None and s = zero_stats]
  by (simp add: zero_stats_def)

subsection \<open>Hour classification\<close>

text \<open>
  Claim C2: an hour in \<open>[0, 24)\<close> falls in exactly one of the four ranges, and the chain
  adds to the bucket of that range only: \<open>[6, 12)\<close> morning, \<open>[12, 18)\<close> daytime,
  \<open>[18, 24)\<close> evening, \<open>[0, 6)\<close> night.
\<close>

theorem hour_bucket_classification:
  "0 \<le> h \<and> h < 24 \<Longrightarrow>
   (6 \<le> h \<and> h < 12 \<longrightarrow>
      addToBucket h n s = s\<lparr>morning := morning s + n\<rparr> \<and>
      incBucket h b = b\<lparr>b_morning := b_morning b + 1\<rparr>) \<and>
   (12 \<le> h \<and> h < 18 \<longrightarrow>
      addToBucket h n s = s\<lparr>daytime := daytime s + n\<rparr> \<and>
      incBucket h b = b\<lparr>b_daytime := b_daytime b + 1\<rparr>) \<and>
   (18 \<le> h \<and> h < 24 \<longrightarrow>
      addToBucket h n s = s\<lparr>evening := evening s + n\<rparr> \<and>
      incBucket h b = b\<lparr>b_evening := b_evening b + 1\<rparr>) \<and>
   (0 \<le> h \<and> h < 6 \<longrightarrow>
      addToBucket h n s = s\<lparr>night := night s + n\<rparr> \<and>
      incBucket h b = b\<lparr>b_night := b_night b + 1\<rparr>) \<and>
   ((6 \<le> h \<and> h < 12) \<or> (12 \<le> h \<and> h < 18) \<or> (18 \<le> h \<and> h < 24) \<or> (0 \<le> h \<and> h < 6))"
proof -
  assume range: "0 \<le> h \<and> h < 24"
  have morning_range: "addToBucket h n s = s\<lparr>morning := morning s + n\<rparr> \<and>
      incBucket h b = b\<lparr>b_morning := b_morning b + 1\<rparr>" if "6 \<le> h \<and> h < 12"
    using that by (simp add: addToBucket_def incBucket_def)
  have daytime_range: "addToBucket h n s = s\<lparr>daytime := daytime s + n\<rparr> \<and>
      incBucket h b = b\<lparr>b_daytime := b_daytime b + 1\<rparr>" if "12 \<le> h \<and> h < 18"
    using that by (simp add: addToBucket_def incBucket_def)
  have evening_range: "addToBucket h n s = s\<lparr>evening := evening s + n\<rparr> \<and>
      incBucket h b = b\<lparr>b_evening := b_evening b + 1\<rparr>" if "18 \<le> h \<and> h < 24"
    using that by (simp add: addToBucket_def incBucket_def)
  have night_range: "addToBucket h n s = s\<lparr>night := night s + n\<rparr> \<and>
      incBucket h b = b\<lparr>b_night := b_night b + 1\<rparr>" if "0 \<le> h \<and> h < 6"
    using that by (simp add: addToBucket_def incBucket_def)
  have cover: "(6 \<le> h \<and> h < 12) \<or> (12 \<le> h \<and> h < 18) \<or> (18 \<le> h \<and> h < 24) \<or> (0 \<le> h \<and> h < 6)"
    using range by linarith
  show ?thesis
    using morning_range daytime_range evening_range night_range cover by blast
qed

text \<open>One hour of each range.\<close>

theorem hour_bucket_classification_witness:
  "addToBucket 7 1 zero_stats = zero_stats\<lparr>morning := 1\<rparr> \<and>
   addToBucket 13 1 zero_stats = zero_stats\<lparr>daytime := 1\<rparr> \<and>
   addToBucket 19 1 zero_stats = zero_stats\<lparr>evening := 1\<rparr> \<and>
   addToBucket 3 1 zero_stats = zero_stats\<lparr>night := 1\<rparr> \<and>
   incBucket 7 zero_buckets = zero_buckets\<lparr>b_morning := 1\<rparr> \<and>
   incBucket 13 zero_buckets = zero_buckets\<lparr>b_daytime := 1\<rparr> \<and>
   incBucket 19 zero_buckets = zero_buckets\<lparr>b_evening := 1\<rparr> \<and>
   incBucket 3 zero_buckets = zero_buckets\<lparr>b_night := 1\<rparr>"
  using hour_bucket_classification[of 7 1 zero_stats zero_buckets]
    hour_bucket_classification[of 13 1 zero_stats zero_buckets]
    hour_bucket_classification[of 19 1 zero_stats zero_buckets]
    hour_bucket_classification[of 3 1 zero_stats zero_buckets]
  by (simp add: zero_stats_def zero_buckets_def)

subsection \<open>The total is the sum of the buckets\<close>

lemma balanced_countEvent_v1: "balanced s \<Longrightarrow> balanced (countEvent_v1 s e)"
  by (simp add: countEvent_v1_def Let_def balanced_def addToBucket_def)

lemma balanced_countEvent_v2: "balanced s \<Longrightarrow> balanced (countEvent_v2 s e)"
  by (simp add: countEvent_v2_def Let_def balanced_def addToBucket_def)

lemma balanced_countItem_v4: "balanced s \<Longrightarrow> balanced (countItem_v4 s i)"
  by (simp add: countItem_v4_def balanced_def addToBucket_def)

lemma balanced_foldl_v1: "balanced s \<Longrightarrow> balanced (foldl countEvent_v1 s xs)"
  by (induction xs arbitrary: s) (simp_all add: balanced_countEvent_v1)

lemma balanced_foldl_v2: "balanced s \<Longrightarrow> balanced (foldl countEvent_v2 s xs)"
  by (induction xs arbitrary: s) (simp_all add: balanced_countEvent_v2)

lemma balanced_foldl_v4: "balanced s \<Longrightarrow> balanced (foldl countItem_v4 s xs)"
  by (induction xs arbitrary: s) (simp_all add: balanced_countItem_v4)

lemma balanced_zero: "balanced zero_stats"
  by (simp add: balanced_def zero_stats_def)

lemma balanced_with_total: "balanced (with_total b)"
  by (simp add: balanced_def with_total_def Let_def)

lemma balanced_pages_v2:
  "balanced s \<Longrightarrow> snd (pages_v2 fetch page asked s) = Inr st \<Longrightarrow> balanced st"
proof (induction fetch page asked s rule: pages_v2.induct)
  case (1 fetch page asked s)
  note unfold = pages_v2.simps[of fetch page asked s]
  show ?case
  proof (cases "page \<le> 3")
    case False
    with "1.prems" show ?thesis by (simp add: unfold)
  next
    case inside: True
    show ?thesis
    proof (cases "fetch page")
      case (Inl err)
      with inside "1.prems" show ?thesis by (simp add: unfold)
    next
      case (Inr events)
      show ?thesis
      proof (cases "length events = 0")
        case True
        with inside Inr "1.prems" show ?thesis by (simp add: unfold)
      next
        case False
        have "balanced (foldl countEvent_v2 s events)"
          using "1.prems"(1) by (rule balanced_foldl_v2)
        moreover have "snd (pages_v2 fetch (page + 1) (asked @ [page]) (foldl countEvent_v2 s events)) = Inr st"
          using "1.prems"(2) inside Inr False by (simp add: unfold)
        ultimately show ?thesis
          using "1.IH"[OF inside Inr False] by blast
      qed
    qed
  qed
qed

lemma balanced_pages_v4:
  "balanced s \<Longrightarrow> snd (pages_v4 fetch page asked s) = Inr st \<Longrightarrow> balanced st"
proof (induction fetch page asked s rule: pages_v4.induct)
  case (1 fetch page asked s)
  note unfold = pages_v4.simps[of fetch page asked s]
  show ?case
  proof (cases "page \<le> 10")
    case False
    with "1.prems" show ?thesis by (simp add: unfold)
  next
    case inside: True
    show ?thesis
    proof (cases "fetch page")
      case (Inl err)
      with inside "1.prems" show ?thesis by (simp add: unfold)
    next
      case (Inr d)
      have bs': "balanced (foldl countItem_v4 s (items_or_empty d))"
        using "1.prems"(1) by (rule balanced_foldl_v4)
      show ?thesis
      proof (cases "length (items_or_empty d) = 0")
        case True
        with inside Inr "1.prems" show ?thesis by (simp add: unfold)
      next
        case nonempty: False
        show ?thesis
        proof (cases "length (items_or_empty d) < 100")
          case True
          with inside Inr nonempty "1.prems"(2) bs' show ?thesis
            by (simp add: unfold Let_def)
        next
          case False
          have "snd (pages_v4 fetch (page + 1) (asked @ [page]) (foldl countItem_v4 s (items_or_empty d))) = Inr st"
            using "1.prems"(2) inside Inr nonempty False by (simp add: unfold Let_def)
          then show ?thesis
            using "1.IH"[OF inside Inr refl nonempty refl False] bs' by blast
        qed
      qed
    qed
  qed
qed

text \<open>
  Claim C3: whatever the API answers, the statistics a collector returns satisfy
  \<open>total = morning + daytime + evening + night\<close>, in all four variants.
\<close>

theorem total_is_sum_of_buckets:
  "(getCommitTimes_v1 a u = Inr st \<longrightarrow> total st = morning st + daytime st + evening st + night st) \<and>
   (snd (getCommitTimes_v2 a env) = Inr st \<longrightarrow> total st = morning st + daytime st + evening st + night st) \<and>
   (snd (getCommitTimes_v3 a env) = Inr st \<longrightarrow> total st = morning st + daytime st + evening st + night st) \<and>
   (snd (getCommitTimes_v4 a env) = Inr st \<longrightarrow> total st = morning st + daytime st + evening st + night st)"
proof (intro conjI impI)
  assume "getCommitTimes_v1 a u = Inr st"
  then have "balanced st"
    using balanced_foldl_v1[OF balanced_zero]
    by (auto simp: getCommitTimes_v1_def split: sum.splits)
  then show "total st = morning st + daytime st + evening st + night st"
    by (simp add: balanced_def)
next
  assume "snd (getCommitTimes_v2 a env) = Inr st"
  then have "balanced st"
    using balanced_pages_v2[OF balanced_zero]
    by (auto simp: getCommitTimes_v2_def split: sum.splits)
  then show "total st = morning st + daytime st + evening st + night st"
    by (simp add: balanced_def)
next
  assume "snd (getCommitTimes_v3 a env) = Inr st"
  then have "balanced st"
    using balanced_with_total
    by (auto simp: getCommitTimes_v3_def split: sum.splits prod.splits)
  then show "total st = morning st + daytime st + evening st + night st"
    by (simp add: balanced_def)
next
  assume "snd (getCommitTimes_v4 a env) = Inr st"
  then have "balanced st"
    using balanced_pages_v4[OF balanced_zero]
    by (auto simp: getCommitTimes_v4_def split: sum.splits)
  then show "total st = morning st + daytime st + evening st + night st"
    by (simp add: balanced_def)
qed

subsection \<open>Runs on the sample inputs\<close>

lemma run_v1: "getCommitTimes_v1 sample_api ''octocat'' =
   Inr \<lparr>morning = 2, daytime = 0, evening = 0, night = 0, total = 2\<rparr>"
  by (simp add: getCommitTimes_v1_def sample_api_def sample_events_def countEvent_v1_def
      commitCount_v1_def addToBucket_def zero_stats_def)

lemma run_pages_v2: "pages_v2 sample_listing 1 [] zero_stats =
   ([1, 2], Inr \<lparr>morning = 2, daytime = 3, evening = 1, night = 0, total = 6\<rparr>)"
proof -
  have first: "pages_v2 sample_listing 1 [] zero_stats =
      pages_v2 sample_listing 2 [1] \<lparr>morning = 2, daytime = 3, evening = 1, night = 0, total = 6\<rparr>"
    by (subst pages_v2.simps)
      (simp add: sample_listing_def sample_events_def countEvent_v2_def commitCount_v2_def
        empty_payload_def js_or_def addToBucket_def zero_stats_def numeral_2_eq_2)
  have second: "pages_v2 sample_listing 2 [1] \<lparr>morning = 2, daytime = 3, evening = 1, night = 0, total = 6\<rparr> =
      ([1, 2], Inr \<lparr>morning = 2, daytime = 3, evening = 1, night = 0, total = 6\<rparr>)"
    by (subst pages_v2.simps) (simp add: sample_listing_def)
  from first second show ?thesis by simp
qed

lemma run_v2: "getCommitTimes_v2 sample_api None =
   ([1, 2], Inr \<lparr>morning = 2, daytime = 3, evening = 1, night = 0, total = 6\<rparr>)"
  using run_pages_v2 by (simp add: getCommitTimes_v2_def sample_api_def pick_username_def)

lemma foldl_countItem_v3_replicate:
  "6 \<le> h \<Longrightarrow> h < 12 \<Longrightarrow> foldl countItem_v3 s (replicate n \<lparr>author_hour = h\<rparr>) = s\<lparr>b_morning := b_morning s + n\<rparr>"
  by (induction n arbitrary: s) (simp_all add: countItem_v3_def incBucket_def)

lemma foldl_countItem_v4_replicate:
  "6 \<le> h \<Longrightarrow> h < 12 \<Longrightarrow> foldl countItem_v4 s (replicate n \<lparr>author_hour = h\<rparr>) =
     s\<lparr>morning := morning s + n, total := total s + n\<rparr>"
  by (induction n arbitrary: s) (simp_all add: countItem_v4_def addToBucket_def)

lemma run_pages_v3: "pages_v3 sample_search 1 [] zero_buckets =
   ([1, 2], Inr \<lparr>b_morning = 100, b_daytime = 0, b_evening = 1, b_night = 0\<rparr>)"
proof -
  have first: "pages_v3 sample_search 1 [] zero_buckets =
      pages_v3 sample_search 2 [1] \<lparr>b_morning = 100, b_daytime = 0, b_evening = 0, b_night = 0\<rparr>"
    by (subst pages_v3.simps)
      (simp add: sample_search_def items_or_empty_def MAX_PAGES_def PER_PAGE_def
        foldl_countItem_v3_replicate zero_buckets_def numeral_2_eq_2)
  have second: "pages_v3 sample_search 2 [1] \<lparr>b_morning = 100, b_daytime = 0, b_evening = 0, b_night = 0\<rparr> =
      ([1, 2], Inr \<lparr>b_morning = 100, b_daytime = 0, b_evening = 1, b_night = 0\<rparr>)"
    by (subst pages_v3.simps)
      (simp add: sample_search_def items_or_empty_def MAX_PAGES_def PER_PAGE_def
        countItem_v3_def incBucket_def)
  from first second show ?thesis by simp
qed

lemma run_v3: "getCommitTimes_v3 sample_api None =
   ([1, 2], Inr \<lparr>morning = 100, daytime = 0, evening = 1, night = 0, total = 101\<rparr>)"
  using run_pages_v3 by (simp add: getCommitTimes_v3_def sample_api_def pick_username_def with_total_def)

lemma run_pages_v4: "pages_v4 sample_search 1 [] zero_stats =
   ([1, 2], Inr \<lparr>morning = 100, daytime = 0, evening = 1, night = 0, total = 101\<rparr>)"
proof -
  have first: "pages_v4 sample_search 1 [] zero_stats =
      pages_v4 sample_search 2 [1] \<lparr>morning = 100, daytime = 0, evening = 0, night = 0, total = 100\<rparr>"
    by (subst pages_v4.simps)
      (simp add: sample_search_def items_or_empty_def foldl_countItem_v4_replicate zero_stats_def
        numeral_2_eq_2)
  have second: "pages_v4 sample_search 2 [1] \<lparr>morning = 100, daytime = 0, evening = 0, night = 0, total = 100\<rparr> =
      ([1, 2], Inr \<lparr>morning = 100, daytime = 0, evening = 1, night = 0, total = 101\<rparr>)"
    by (subst pages_v4.simps)
      (simp add: sample_search_def items_or_empty_def countItem_v4_def addToBucket_def)
  from first second show ?thesis by simp
qed

lemma run_v4: "getCommitTimes_v4 sample_api None =
   ([1, 2], Inr \<lparr>morning = 100, daytime = 0, evening = 1, night = 0, total = 101\<rparr>)"
  using run_pages_v4 by (simp add: getCommitTimes_v4_def sample_api_def pick_username_def)

text \<open>The four collectors on the sample API.\<close>

theorem total_is_sum_of_buckets_witness:
  "getCommitTimes_v1 sample_api ''octocat'' = Inr \<lparr>morning = 2, daytime = 0, evening = 0, night = 0, total = 2\<rparr> \<and>
   snd (getCommitTimes_v2 sample_api None) = Inr \<lparr>morning = 2, daytime = 3, evening = 1, night = 0, total = 6\<rparr> \<and>
   snd (getCommitTimes_v3 sample_api None) = Inr \<lparr>morning = 100, daytime = 0, evening = 1, night = 0, total = 101\<rparr> \<and>
   snd (getCommitTimes_v4 sample_api None) = Inr \<lparr>morning = 100, daytime = 0, evening = 1, night = 0, total = 101\<rparr> \<and>
   (2::nat) = 2 + 0 + 0 + 0 \<and> (6::nat) = 2 + 3 + 1 + 0 \<and> (101::nat) = 100 + 0 + 1 + 0"
  using total_is_sum_of_buckets[of sample_api "''octocat''" "\<lparr>morning = 2, daytime = 0, evening = 0, night = 0, total = 2\<rparr>" None]
    total_is_sum_of_buckets[of sample_api "''octocat''" "\<lparr>morning = 2, daytime = 3, evening = 1, night = 0, total = 6\<rparr>" None]
    total_is_sum_of_buckets[of sample_api "''octocat''" "\<lparr>morning = 100, daytime = 0, evening = 1, night = 0, total = 101\<rparr>" None]
  by (simp add: run_v1 run_v2 run_v3 run_v4)


subsection \<open>Pagination\<close>

lemma asked_pages_v2:
  "page \<le> 4 \<Longrightarrow>
   \<exists>k. page \<le> k \<and> k \<le> 4 \<and> fst (pages_v2 fetch page asked s) = asked @ [page..<k] \<and>
       (\<forall>p. page \<le> p \<and> Suc p < k \<longrightarrow> (\<exists>events. fetch p = Inr events \<and> events \<noteq> []))"
proof (induction fetch page asked s rule: pages_v2.induct)
  case (1 fetch page asked s)
  note unfold = pages_v2.simps[of fetch page asked s]
  show ?case
  proof (cases "page \<le> 3")
    case False
    then have "fst (pages_v2 fetch page asked s) = asked @ [page..<page]"
      by (simp add: unfold)
    with "1.prems" show ?thesis by (intro exI[of _ page]) auto
  next
    case inside: True
    have single: "asked @ [page] = asked @ [page..<Suc page]" by simp
    show ?thesis
    proof (cases "fetch page")
      case (Inl err)
      then have "fst (pages_v2 fetch page asked s) = asked @ [page..<Suc page]"
        using inside by (simp add: unfold)
      with inside show ?thesis by (intro exI[of _ "Suc page"]) auto
    next
      case (Inr events)
      show ?thesis
      proof (cases "length events = 0")
        case True
        then have "fst (pages_v2 fetch page asked s) = asked @ [page..<Suc page]"
          using inside Inr by (simp add: unfold)
        with inside show ?thesis by (intro exI[of _ "Suc page"]) auto
      next
        case False
        from inside have "page + 1 \<le> 4" by simp
        from "1.IH"[OF inside Inr False this]
        obtain k where k: "page + 1 \<le> k" "k \<le> 4"
          "fst (pages_v2 fetch (page + 1) (asked @ [page]) (foldl countEvent_v2 s events))
             = (asked @ [page]) @ [page + 1..<k]"
          "\<forall>p. page + 1 \<le> p \<and> Suc p < k \<longrightarrow> (\<exists>events. fetch p = Inr events \<and> events \<noteq> [])"
          by blast
        have "fst (pages_v2 fetch page asked s) = asked @ [page..<k]"
          using inside Inr False k(1,3) by (simp add: unfold upt_conv_Cons)
        moreover have "\<forall>p. page \<le> p \<and> Suc p < k \<longrightarrow> (\<exists>events. fetch p = Inr events \<and> events \<noteq> [])"
        proof (intro allI impI)
          fix p assume p: "page \<le> p \<and> Suc p < k"
          show "\<exists>events. fetch p = Inr events \<and> events \<noteq> []"
          proof (cases "p = page")
            case True
            with Inr False show ?thesis by simp
          next
            case False
            with p have "page + 1 \<le> p \<and> Suc p < k" by simp
            with k(4) show ?thesis by blast
          qed
        qed
        ultimately show ?thesis using k(1,2) by (intro exI[of _ k]) simp
      qed
    qed
  qed
qed


lemma asked_pages_v3:
  "page \<le> Suc MAX_PAGES \<Longrightarrow>
   \<exists>k. page \<le> k \<and> k \<le> Suc MAX_PAGES \<and> fst (pages_v3 fetch page asked s) = asked @ [page..<k] \<and>
       (\<forall>p. page \<le> p \<and> Suc p < k \<longrightarrow> (\<exists>d. fetch p = Inr d \<and> PER_PAGE \<le> length (items_or_empty d)))"
proof (induction fetch page asked s rule: pages_v3.induct)
  case (1 fetch page asked s)
  note unfold = pages_v3.simps[of fetch page asked s]
  show ?case
  proof (cases "page \<le> MAX_PAGES")
    case False
    then have "fst (pages_v3 fetch page asked s) = asked @ [page..<page]"
      by (simp add: unfold)
    with "1.prems" show ?thesis by (intro exI[of _ page]) auto
  next
    case inside: True
    show ?thesis
    proof (cases "fetch page")
      case (Inl err)
      then have "fst (pages_v3 fetch page asked s) = asked @ [page..<Suc page]"
        using inside by (simp add: unfold)
      with inside show ?thesis by (intro exI[of _ "Suc page"]) auto
    next
      case (Inr d)
      show ?thesis
      proof (cases "length (items_or_empty d) = 0 \<or> length (items_or_empty d) < PER_PAGE")
        case True
        then have "fst (pages_v3 fetch page asked s) = asked @ [page..<Suc page]"
          using inside Inr by (auto simp add: unfold Let_def)
        with inside show ?thesis by (intro exI[of _ "Suc page"]) auto
      next
        case False
        then have nonempty: "length (items_or_empty d) \<noteq> 0"
          and full: "\<not> length (items_or_empty d) < PER_PAGE" by simp_all
        from inside have "page + 1 \<le> Suc MAX_PAGES" by simp
        from "1.IH"[OF inside Inr refl nonempty refl full this]
        obtain k where k: "page + 1 \<le> k" "k \<le> Suc MAX_PAGES"
          "fst (pages_v3 fetch (page + 1) (asked @ [page]) (foldl countItem_v3 s (items_or_empty d)))
             = (asked @ [page]) @ [page + 1..<k]"
          "\<forall>p. page + 1 \<le> p \<and> Suc p < k \<longrightarrow> (\<exists>d. fetch p = Inr d \<and> PER_PAGE \<le> length (items_or_empty d))"
          by blast
        have "fst (pages_v3 fetch page asked s) = asked @ [page..<k]"
          using inside Inr nonempty full k(1,3) by (simp add: unfold Let_def upt_conv_Cons)
        moreover have "\<forall>p. page \<le> p \<and> Suc p < k \<longrightarrow> (\<exists>d. fetch p = Inr d \<and> PER_PAGE \<le> length (items_or_empty d))"
        proof (intro allI impI)
          fix p assume p: "page \<le> p \<and> Suc p < k"
          show "\<exists>d. fetch p = Inr d \<and> PER_PAGE \<le> length (items_or_empty d)"
          proof (cases "p = page")
            case True
            with Inr full show ?thesis by simp
          next
            case False
            with p have "page + 1 \<le> p \<and> Suc p < k" by simp
            with k(4) show ?thesis by blast
          qed
        qed
        ultimately show ?thesis using k(1,2) by (intro exI[of _ k]) simp
      qed
    qed
  qed
qed

lemma asked_pages_v4:
  "page \<le> Suc 10 \<Longrightarrow>
   \<exists>k. page \<le> k \<and> k \<le> Suc 10 \<and> fst (pages_v4 fetch page asked s) = asked @ [page..<k] \<and>
       (\<forall>p. page \<le> p \<and> Suc p < k \<longrightarrow> (\<exists>d. fetch p = Inr d \<and> 100 \<le> length (items_or_empty d)))"
proof (induction fetch page asked s rule: pages_v4.induct)
  case (1 fetch page asked s)
  note unfold = pages_v4.simps[of fetch page asked s]
  show ?case
  proof (cases "page \<le> 10")
    case False
    then have "fst (pages_v4 fetch page asked s) = asked @ [page..<page]"
      by (simp add: unfold)
    with "1.prems" show ?thesis by (intro exI[of _ page]) auto
  next
    case inside: True
    show ?thesis
    proof (cases "fetch page")
      case (Inl err)
      then have "fst (pages_v4 fetch page asked s) = asked @ [page..<Suc page]"
        using inside by (simp add: unfold)
      with inside show ?thesis by (intro exI[of _ "Suc page"]) auto
    next
      case (Inr d)
      show ?thesis
      proof (cases "length (items_or_empty d) = 0 \<or> length (items_or_empty d) < 100")
        case True
        then have "fst (pages_v4 fetch page asked s) = asked @ [page..<Suc page]"
          using inside Inr by (auto simp add: unfold Let_def)
        with inside show ?thesis by (intro exI[of _ "Suc page"]) auto
      next
        case False
        then have nonempty: "length (items_or_empty d) \<noteq> 0"
          and full: "\<not> length (items_or_empty d) < 100" by simp_all
        from inside have "page + 1 \<le> Suc 10" by simp
        from "1.IH"[OF inside Inr refl nonempty refl full this]
        obtain k where k: "page + 1 \<le> k" "k \<le> Suc 10"
          "fst (pages_v4 fetch (page + 1) (asked @ [page]) (foldl countItem_v4 s (items_or_empty d)))
             = (asked @ [page]) @ [page + 1..<k]"
          "\<forall>p. page + 1 \<le> p \<and> Suc p < k \<longrightarrow> (\<exists>d. fetch p = Inr d \<and> 100 \<le> length (items_or_empty d))"
          by blast
        have "fst (pages_v4 fetch page asked s) = asked @ [page..<k]"
          using inside Inr nonempty full k(1,3) by (simp add: unfold Let_def upt_conv_Cons)
        moreover have "\<forall>p. page \<le> p \<and> Suc p < k \<longrightarrow> (\<exists>d. fetch p = Inr d \<and> 100 \<le> length (items_or_empty d))"
        proof (intro allI impI)
          fix p assume p: "page \<le> p \<and> Suc p < k"
          show "\<exists>d. fetch p = Inr d \<and> 100 \<le> length (items_or_empty d)"
          proof (cases "p = page")
            case True
            with Inr full show ?thesis by simp
          next
            case False
            with p have "page + 1 \<le> p \<and> Suc p < k" by simp
            with k(4) show ?thesis by blast
          qed
        qed
        ultimately show ?thesis using k(1,2) by (intro exI[of _ k]) simp
      qed
    qed
  qed
qed

lemma asked_from_one:
  assumes "fst r = [] @ [1..<k]" "1 \<le> k"
  shows "length (fst r) = k - 1" "fst r = [1..<Suc (length (fst r))]"
  using assms by simp_all

text \<open>
  Claim C8: the page loops are total functions (their termination is proved with the
  definitions). Started at page 1 they request pages \<open>1, 2, \<dots>, k\<close> in order, with \<open>k\<close>
  at most 3 in \<open>v2\<close> and at most 10 in \<open>v3\<close> and \<open>v4\<close>. Every page before the last
  requested one was answered and non-empty (\<open>v2\<close>), respectively held at least
  \<open>PER_PAGE = 100\<close> records (\<open>v3\<close>, \<open>v4\<close>): an empty page, or a short batch in the search
  variants, is the last page requested.
\<close>

theorem pagination_bounded:
  "(let asked = fst (pages_v2 fetch 1 [] s) in
      length asked \<le> 3 \<and> asked = [1..<Suc (length asked)] \<and>
      (\<forall>p. 1 \<le> p \<and> p < length asked \<longrightarrow> (\<exists>events. fetch p = Inr events \<and> events \<noteq> []))) \<and>
   (let asked = fst (pages_v3 search 1 [] b) in
      length asked \<le> MAX_PAGES \<and> asked = [1..<Suc (length asked)] \<and>
      (\<forall>p. 1 \<le> p \<and> p < length asked \<longrightarrow>
           (\<exists>d. search p = Inr d \<and> PER_PAGE \<le> length (items_or_empty d)))) \<and>
   (let asked = fst (pages_v4 search 1 [] s) in
      length asked \<le> 10 \<and> asked = [1..<Suc (length asked)] \<and>
      (\<forall>p. 1 \<le> p \<and> p < length asked \<longrightarrow>
           (\<exists>d. search p = Inr d \<and> 100 \<le> length (items_or_empty d)))) \<and>
   length (fst (getCommitTimes_v2 a env)) \<le> 3 \<and>
   length (fst (getCommitTimes_v3 a env)) \<le> 10 \<and>
   length (fst (getCommitTimes_v4 a env)) \<le> 10"
proof -
  have v2: "length (fst (pages_v2 f 1 [] t)) \<le> 3 \<and>
        fst (pages_v2 f 1 [] t) = [1..<Suc (length (fst (pages_v2 f 1 [] t)))] \<and>
        (\<forall>p. 1 \<le> p \<and> p < length (fst (pages_v2 f 1 [] t)) \<longrightarrow>
             (\<exists>events. f p = Inr events \<and> events \<noteq> []))" for f t
  proof -
    obtain k where k: "1 \<le> k" "k \<le> 4" "fst (pages_v2 f 1 [] t) = [] @ [1..<k]"
      "\<forall>p. 1 \<le> p \<and> Suc p < k \<longrightarrow> (\<exists>events. f p = Inr events \<and> events \<noteq> [])"
      using asked_pages_v2[of 1 f "[]" t] by auto
    from asked_from_one[OF k(3) k(1)] k(2,4) show ?thesis by auto
  qed
  have v3: "length (fst (pages_v3 f 1 [] t)) \<le> MAX_PAGES \<and>
        fst (pages_v3 f 1 [] t) = [1..<Suc (length (fst (pages_v3 f 1 [] t)))] \<and>
        (\<forall>p. 1 \<le> p \<and> p < length (fst (pages_v3 f 1 [] t)) \<longrightarrow>
             (\<exists>d. f p = Inr d \<and> PER_PAGE \<le> length (items_or_empty d)))" for f t
  proof -
    obtain k where k: "1 \<le> k" "k \<le> Suc MAX_PAGES" "fst (pages_v3 f 1 [] t) = [] @ [1..<k]"
      "\<forall>p. 1 \<le> p \<and> Suc p < k \<longrightarrow> (\<exists>d. f p = Inr d \<and> PER_PAGE \<le> length (items_or_empty d))"
      using asked_pages_v3[of 1 f "[]" t] by auto
    from asked_from_one[OF k(3) k(1)] k(2,4) show ?thesis by auto
  qed
  have v4: "length (fst (pages_v4 f 1 [] t)) \<le> 10 \<and>
        fst (pages_v4 f 1 [] t) = [1..<Suc (length (fst (pages_v4 f 1 [] t)))] \<and>
        (\<forall>p. 1 \<le> p \<and> p < length (fst (pages_v4 f 1 [] t)) \<longrightarrow>
             (\<exists>d. f p = Inr d \<and> 100 \<le> length (items_or_empty d)))" for f t
  proof -
    obtain k where k: "1 \<le> k" "k \<le> Suc 10" "fst (pages_v4 f 1 [] t) = [] @ [1..<k]"
      "\<forall>p. 1 \<le> p \<and> Suc p < k \<longrightarrow> (\<exists>d. f p = Inr d \<and> 100 \<le> length (items_or_empty d))"
      using asked_pages_v4[of 1 f "[]" t] by auto
    from asked_from_one[OF k(3) k(1)] k(2,4) show ?thesis by auto
  qed
  have g2: "length (fst (getCommitTimes_v2 a env)) \<le> 3"
    using v2 by (simp add: getCommitTimes_v2_def split: sum.splits)
  have g3: "length (fst (getCommitTimes_v3 a env)) \<le> 10"
  proof (cases "getAuthenticated a")
    case (Inl err)
    then show ?thesis by (simp add: getCommitTimes_v3_def)
  next
    case (Inr login)
    obtain asked r where r: "pages_v3 (searchCommits a (pick_username env login)) 1 [] zero_buckets = (asked, r)"
      by (cases "pages_v3 (searchCommits a (pick_username env login)) 1 [] zero_buckets")
    have "length asked \<le> MAX_PAGES"
      using v3[of "searchCommits a (pick_username env login)" zero_buckets] r by simp
    then show ?thesis
      using Inr r by (cases r) (simp_all add: getCommitTimes_v3_def MAX_PAGES_def)
  qed
  have g4: "length (fst (getCommitTimes_v4 a env)) \<le> 10"
    using v4 by (simp add: getCommitTimes_v4_def split: sum.splits)
  show ?thesis
    using v2[of fetch s] v3[of search b] v4[of search s] g2 g3 g4 by (simp add: Let_def)
qed

text \<open>Two pages are requested on the sample inputs; the first one is full.\<close>

theorem pagination_bounded_witness:
  "fst (pages_v2 sample_listing 1 [] zero_stats) = [1, 2] \<and>
   (\<exists>events. sample_listing 1 = Inr events \<and> events \<noteq> []) \<and>
   fst (pages_v3 sample_search 1 [] zero_buckets) = [1, 2] \<and>
   (\<exists>d. sample_search 1 = Inr d \<and> PER_PAGE \<le> length (items_or_empty d)) \<and>
   fst (pages_v4 sample_search 1 [] zero_stats) = [1, 2] \<and>
   (\<exists>d. sample_search 1 = Inr d \<and> 100 \<le> length (items_or_empty d))"
proof -
  have a2: "fst (pages_v2 sample_listing 1 [] zero_stats) = [1, 2]"
    using run_pages_v2 by simp
  have a3: "fst (pages_v3 sample_search 1 [] zero_buckets) = [1, 2]"
    using run_pages_v3 by simp
  have a4: "fst (pages_v4 sample_search 1 [] zero_stats) = [1, 2]"
    using run_pages_v4 by simp
  from pagination_bounded[of sample_listing zero_stats sample_search zero_buckets sample_api None]
  show ?thesis
    unfolding Let_def a2 a3 a4 by simp
qed


section \<open>Properties of the number model\<close>

subsection \<open>Powers of two and the exponent\<close>

lemma two_powi_pos: "0 < (2::rat) powi e"
  by simp

lemma two_powi_mono: "a \<le> b \<Longrightarrow> (2::rat) powi a \<le> 2 powi b"
  by (rule power_int_increasing) simp_all

lemma two_powi_less_exp: "(2::rat) powi a < 2 powi b \<Longrightarrow> a < b"
proof (rule ccontr)
  assume lt: "(2::rat) powi a < 2 powi b" and "\<not> a < b"
  then have "b \<le> a" by simp
  then have "(2::rat) powi b \<le> 2 powi a" by (rule two_powi_mono)
  with lt show False by simp
qed

lemma two_powi_Suc: "(2::rat) powi (e + 1) = 2 * 2 powi e"
  by (simp add: power_int_add)

lemma two_powi_diff: "(2::rat) powi (a - b) = 2 powi a / 2 powi b"
  by (simp add: power_int_diff)

lemma two_powi_add: "(2::rat) powi (a + b) = 2 powi a * 2 powi b"
  by (simp add: power_int_add)

lemma floorlog_rat_bounds:
  fixes q :: rat
  assumes "1 \<le> q"
  defines "L \<equiv> floorlog 2 (nat \<lfloor>q\<rfloor>)"
  shows "1 \<le> L" "2 ^ (L - 1) \<le> q" "q < 2 ^ L"
proof -
  define a where "a = nat \<lfloor>q\<rfloor>"
  have a_pos: "0 < a" using assms(1) by (simp add: a_def)
  have a_le: "of_nat a \<le> q"
    using assms(1) by (simp add: a_def)
  have q_lt: "q < of_nat a + 1"
    using assms(1) by (simp add: a_def) linarith
  have b: "2 ^ (L - 1) \<le> a" "a < 2 ^ L"
    using floorlog_bounds[of a 2] a_pos by (simp_all add: L_def a_def)
  show "1 \<le> L"
    using a_pos by (simp add: L_def a_def[symmetric] floorlog_def)
  have "(2::rat) ^ (L - 1) = of_nat (2 ^ (L - 1))" by simp
  also have "\<dots> \<le> of_nat a" using b(1) by (simp only: of_nat_le_iff)
  finally have "(2::rat) ^ (L - 1) \<le> of_nat a" .
  then show "2 ^ (L - 1) \<le> q" using a_le by (rule order_trans)
  from b(2) have "a + 1 \<le> 2 ^ L" by simp
  then have "(of_nat (a + 1) :: rat) \<le> of_nat (2 ^ L)" by (simp only: of_nat_le_iff)
  then have "(of_nat a :: rat) + 1 \<le> 2 ^ L" by simp
  with q_lt show "q < 2 ^ L" by simp
qed

lemma expo2_bounds:
  assumes "0 < q"
  shows "2 powi (expo2 q) \<le> q" and "q < 2 powi (expo2 q + 1)"
proof -
  have "2 powi (expo2 q) \<le> q \<and> q < 2 powi (expo2 q + 1)"
  proof (cases "1 \<le> q")
    case True
    define L where "L = floorlog 2 (nat \<lfloor>q\<rfloor>)"
    note b = floorlog_rat_bounds[OF True, folded L_def]
    have e: "expo2 q = int L - 1" using True by (simp add: expo2_def L_def)
    have "int L - 1 = int (L - 1)" using b(1) by simp
    then have "2 powi (expo2 q) = (2::rat) ^ (L - 1)" unfolding e by (simp only: power_int_of_nat)
    moreover have "2 powi (expo2 q + 1) = (2::rat) ^ L" unfolding e by simp
    ultimately show ?thesis using b(2,3) by simp
  next
    case False
    define r where "r = 1 / q"
    have r1: "1 \<le> r" using assms False by (simp add: r_def)
    define L where "L = floorlog 2 (nat \<lfloor>r\<rfloor>)"
    note b = floorlog_rat_bounds[OF r1, folded L_def]
    have q_eq: "q = 1 / r" using assms by (simp add: r_def)
    have up: "q \<le> 2 powi (1 - int L)"
    proof -
      have "int (L - 1) = int L - 1" using b(1) by simp
      then have "2 powi (1 - int L) = 1 / (2::rat) ^ (L - 1)"
        by (metis minus_diff_eq power_int_minus_divide power_int_of_nat)
      moreover have "1 / r \<le> 1 / 2 ^ (L - 1)"
        using b(2) by (intro frac_le) simp_all
      ultimately show ?thesis by (simp add: q_eq)
    qed
    have low: "2 powi (- int L) < q"
    proof -
      have "2 powi (- int L) = 1 / (2::rat) ^ L"
        by (simp add: power_int_minus_divide)
      moreover have "1 / 2 ^ L < 1 / r"
        using b(3) r1 by (intro frac_less2) simp_all
      ultimately show ?thesis by (simp add: q_eq)
    qed
    show ?thesis
    proof (cases "2 powi (1 - int L) \<le> q")
      case True
      then have e: "expo2 q = 1 - int L"
        using False by (simp add: expo2_def L_def r_def Let_def)
      have "q = 2 powi (1 - int L)" using True up by simp
      moreover have "(2::rat) powi (1 - int L) < 2 powi (1 - int L + 1)"
        by (simp only: two_powi_Suc) (simp add: two_powi_pos)
      ultimately show ?thesis unfolding e by simp
    next
      case nle: False
      then have e: "expo2 q = - int L"
        using False by (simp add: expo2_def L_def r_def Let_def)
      have "- int L + 1 = 1 - int L" by simp
      with nle low show ?thesis unfolding e by simp
    qed
  qed
  then show "2 powi (expo2 q) \<le> q" and "q < 2 powi (expo2 q + 1)" by simp_all
qed

lemma expo2_unique:
  assumes "0 < q" "2 powi e \<le> q" "q < 2 powi (e + 1)"
  shows "expo2 q = e"
proof -
  have "(2::rat) powi e < 2 powi (expo2 q + 1)"
    using assms(2) expo2_bounds(2)[OF assms(1)] by simp
  then have "e < expo2 q + 1" by (rule two_powi_less_exp)
  moreover have "(2::rat) powi (expo2 q) < 2 powi (e + 1)"
    using assms(3) expo2_bounds(1)[OF assms(1)] by simp
  then have "expo2 q < e + 1" by (rule two_powi_less_exp)
  ultimately show ?thesis by simp
qed

subsection \<open>Rounding to an integer\<close>

lemma rne_err: "\<bar>of_int (rne y) - y\<bar> \<le> 1 / 2"
proof -
  have "of_int \<lfloor>y\<rfloor> \<le> y" "y < of_int \<lfloor>y\<rfloor> + 1" by linarith+
  then show ?thesis
    by (auto simp: rne_def Let_def abs_le_iff)
qed

lemma rne_unique:
  assumes "\<bar>y - of_int m\<bar> < 1 / 2"
  shows "rne y = m"
proof -
  have "\<bar>(of_int (rne y) :: rat) - of_int m\<bar> \<le> \<bar>of_int (rne y) - y\<bar> + \<bar>y - of_int m\<bar>"
    by simp
  also have "\<dots> < 1 / 2 + 1 / 2" using rne_err[of y] assms by simp
  finally have "\<bar>(of_int (rne y - m) :: rat)\<bar> < 1" by simp
  then have "\<bar>rne y - m\<bar> < 1"
    by (metis of_int_abs of_int_less_1_iff)
  then show ?thesis by simp
qed

lemma rne_of_int: "rne (of_int k) = k"
  by (rule rne_unique) simp

subsection \<open>Rounding to binary64\<close>

lemma fl_zero: "fl 0 = 0"
  by (simp add: fl_def)

lemma fl_scaled:
  assumes "0 < q"
  shows "fl q = of_int (rne (q / 2 powi (max (expo2 q - 52) (- 1074)))) * 2 powi (max (expo2 q - 52) (- 1074))"
  using assms by (simp add: fl_def Let_def)

lemma expo2_normal:
  assumes "2 powi (- 1022) \<le> q"
  shows "max (expo2 q - 52) (- 1074) = expo2 q - 52"
proof -
  have pos: "0 < q" using assms two_powi_pos[of "- 1022"] by (rule less_le_trans[rotated])
  have "(2::rat) powi (- 1022) < 2 powi (expo2 q + 1)"
    using assms expo2_bounds(2)[OF pos] by (rule le_less_trans)
  then have "- 1022 < expo2 q + 1" by (rule two_powi_less_exp)
  then show ?thesis by simp
qed

lemma fl_err:
  assumes "2 powi (- 1022) \<le> q"
  shows "\<bar>fl q - q\<bar> \<le> q / 2 ^ 53"
proof -
  have pos: "0 < q" using assms two_powi_pos[of "- 1022"] by (rule less_le_trans[rotated])
  define e where "e = expo2 q - 52"
  define y where "y = q / 2 powi e"
  have p: "(0::rat) < 2 powi e" by (rule two_powi_pos)
  have q_eq: "q = y * 2 powi e" using p by (simp add: y_def)
  have fl_eq: "fl q = of_int (rne y) * 2 powi e"
    using fl_scaled[OF pos] expo2_normal[OF assms] by (simp add: e_def y_def)
  have "y * 2 powi e = q" using p by (simp add: y_def)
  then have "fl q - q = (of_int (rne y) - y) * 2 powi e"
    unfolding fl_eq by (simp add: algebra_simps)
  then have "\<bar>fl q - q\<bar> = \<bar>of_int (rne y) - y\<bar> * 2 powi e"
    using p by (simp add: abs_mult)
  also have "\<dots> \<le> (1 / 2) * 2 powi e"
    using rne_err[of y] p by (intro mult_right_mono) simp_all
  also have "\<dots> = 2 powi (expo2 q) / 2 ^ 53"
    by (simp add: e_def two_powi_diff)
  also have "\<dots> \<le> q / 2 ^ 53"
    using expo2_bounds(1)[OF pos] by (intro divide_right_mono) simp_all
  finally show ?thesis .
qed

lemma fl_dyadic:
  assumes "0 < m" "m < 2 ^ 53" "- 1074 \<le> k"
  shows "fl (of_int m * 2 powi k) = of_int m * 2 powi k"
proof -
  define q :: rat where "q = of_int m * 2 powi k"
  have pos: "0 < q" using assms(1) by (simp add: q_def)
  define e where "e = max (expo2 q - 52) (- 1074)"
  have "q < 2 ^ 53 * 2 powi k"
    unfolding q_def using assms(2)
    by (intro mult_strict_right_mono) (simp_all add: of_int_less_numeral_power_cancel_iff)
  also have "\<dots> = 2 powi (53 + k)" by (simp add: two_powi_add)
  finally have "(2::rat) powi (expo2 q) < 2 powi (53 + k)"
    using expo2_bounds(1)[OF pos] by simp
  then have "expo2 q < 53 + k" by (rule two_powi_less_exp)
  then have ek: "e \<le> k" using assms(3) by (simp add: e_def)
  then have "k = e + int (nat (k - e))" by simp
  then have "(2::rat) powi k = 2 powi e * 2 ^ nat (k - e)"
    by (metis power_int_of_nat two_powi_add)
  then have "q / 2 powi e = of_int (m * 2 ^ nat (k - e))"
    by (simp add: q_def)
  then have "rne (q / 2 powi e) = m * 2 ^ nat (k - e)"
    by (simp only: rne_of_int)
  then have "fl q = of_int (m * 2 ^ nat (k - e)) * 2 powi e"
    using fl_scaled[OF pos] by (simp add: e_def)
  also have "\<dots> = of_int m * (2 powi e * 2 ^ nat (k - e))" by simp
  also have "\<dots> = q" using \<open>(2::rat) powi k = 2 powi e * 2 ^ nat (k - e)\<close> by (simp add: q_def)
  finally show ?thesis by (simp add: q_def)
qed

lemma fl_eqI:
  assumes "2 powi (52 + e) \<le> q" "q < 2 powi (53 + e)" "- 1074 \<le> e"
    and "\<bar>q - of_int m * 2 powi e\<bar> < 2 powi e / 2"
  shows "fl q = of_int m * 2 powi e"
proof -
  have pos: "0 < q" using assms(1) two_powi_pos[of "52 + e"] by (rule less_le_trans[rotated])
  have "53 + e = 52 + e + 1" by simp
  then have "expo2 q = 52 + e"
    using expo2_unique[OF pos assms(1)] assms(2) by simp
  then have sc: "max (expo2 q - 52) (- 1074) = e" using assms(3) by simp
  have p: "(0::rat) < 2 powi e" by (rule two_powi_pos)
  have "q / 2 powi e - of_int m = (q - of_int m * 2 powi e) / 2 powi e"
    using p by (simp add: field_simps)
  then have "\<bar>q / 2 powi e - of_int m\<bar> = \<bar>q - of_int m * 2 powi e\<bar> / 2 powi e"
    using p by (simp add: abs_divide)
  also have "\<dots> < (2 powi e / 2) / 2 powi e"
    using assms(4) p by (intro divide_strict_right_mono) simp_all
  also have "\<dots> = 1 / 2" using p by simp
  finally have "rne (q / 2 powi e) = m" by (rule rne_unique)
  then show ?thesis using fl_scaled[OF pos] sc by simp
qed

lemma rne_nearest: "\<bar>of_int (rne y) - y\<bar> \<le> \<bar>of_int m - y\<bar>"
proof (cases "m = rne y")
  case True
  then show ?thesis by simp
next
  case False
  then have "1 \<le> \<bar>m - rne y\<bar>" by simp
  then have "(1::rat) \<le> \<bar>of_int (m - rne y)\<bar>"
    by (metis of_int_1 of_int_abs of_int_le_iff)
  also have "\<dots> \<le> \<bar>of_int m - y\<bar> + \<bar>of_int (rne y) - y\<bar>" by simp
  finally have "1 - \<bar>of_int (rne y) - y\<bar> \<le> \<bar>of_int m - y\<bar>" by simp
  moreover have "\<bar>of_int (rne y) - y\<bar> \<le> 1 / 2" by (rule rne_err)
  ultimately show ?thesis by linarith
qed

text \<open>
  \<open>fl q\<close> is a nearest point to \<open>q\<close> on the binary64 grid of \<open>q\<close>'s binade: no
  multiple of \<open>2^(e - 52)\<close>, with \<open>e = expo2 q\<close>, is closer.
\<close>

lemma fl_nearest:
  assumes "2 powi (- 1022) \<le> q"
  shows "\<bar>fl q - q\<bar> \<le> \<bar>of_int m * 2 powi (expo2 q - 52) - q\<bar>"
proof -
  have pos: "0 < q" using assms two_powi_pos[of "- 1022"] by (rule less_le_trans[rotated])
  define e where "e = expo2 q - 52"
  define y where "y = q / 2 powi e"
  have p: "(0::rat) < 2 powi e" by (rule two_powi_pos)
  have q_eq: "y * 2 powi e = q" using p by (simp add: y_def)
  have fl_eq: "fl q = of_int (rne y) * 2 powi e"
    using fl_scaled[OF pos] expo2_normal[OF assms] by (simp add: e_def y_def)
  have "fl q - q = (of_int (rne y) - y) * 2 powi e"
    unfolding fl_eq using q_eq by (simp add: algebra_simps)
  then have a: "\<bar>fl q - q\<bar> = \<bar>of_int (rne y) - y\<bar> * 2 powi e"
    using p by (simp add: abs_mult)
  have "of_int m * 2 powi e - q = (of_int m - y) * 2 powi e"
    using q_eq by (simp add: algebra_simps)
  then have b: "\<bar>of_int m * 2 powi e - q\<bar> = \<bar>of_int m - y\<bar> * 2 powi e"
    using p by (simp add: abs_mult)
  have "\<bar>of_int (rne y) - y\<bar> * 2 powi e \<le> \<bar>of_int m - y\<bar> * 2 powi e"
    using rne_nearest[of y m] p by (intro mult_right_mono) simp_all
  then have "\<bar>fl q - q\<bar> \<le> \<bar>of_int m * 2 powi e - q\<bar>" by (simp only: a b)
  then show ?thesis by (simp only: e_def)
qed

text \<open>The binary64 value of one tenth.\<close>

lemma fl_one_tenth: "fl (1 / 10) = 3602879701896397 / 36028797018963968"
proof -
  have "fl (1 / 10) = of_int 7205759403792794 * 2 powi (- 56)"
    by (rule fl_eqI) simp_all
  then show ?thesis by simp
qed

subsection \<open>Digit strings, toFixed and ToNumber\<close>

declare digits.simps [simp del]

lemma asc_simps: "asc [] = []" "asc (c # cs) = of_char c # asc cs"
  by (simp_all add: asc_def)

lemma digits_small: "n < 10 \<Longrightarrow> digits n = [48 + n]"
  by (subst digits.simps) simp

lemma digits_large: "\<not> n < 10 \<Longrightarrow> digits n = digits (n div 10) @ [48 + n mod 10]"
  by (subst digits.simps) simp

lemma digits_all_digit: "list_all is_digit (digits n)"
proof (induction n rule: digits.induct)
  case (1 n)
  show ?case
  proof (cases "n < 10")
    case True
    then show ?thesis by (simp add: digits_small is_digit_def)
  next
    case False
    have "n mod 10 < 10" by simp
    then have "is_digit (48 + n mod 10)" unfolding is_digit_def by linarith
    with False "1.IH" show ?thesis by (simp add: digits_large)
  qed
qed

lemma digits_nonempty: "digits n \<noteq> []"
  by (cases "n < 10") (simp_all add: digits_small digits_large)

lemma digits_value_snoc: "digits_value (ds @ [u]) = 10 * digits_value ds + (u - 48)"
  by (simp add: digits_value_def)

lemma digits_value_digits: "digits_value (digits n) = n"
proof (induction n rule: digits.induct)
  case (1 n)
  show ?case
  proof (cases "n < 10")
    case True
    then show ?thesis by (simp add: digits_small digits_value_def)
  next
    case False
    with "1.IH" show ?thesis by (simp add: digits_large digits_value_snoc)
  qed
qed

lemma toFixed1_nonneg:
  assumes "0 \<le> x"
  shows "toFixed1 x = digits (tenths x div 10) @ [46] @ [48 + tenths x mod 10]"
proof -
  define n where "n = tenths x"
  have nx: "nat \<lfloor>x * 10 + 1 / 2\<rfloor> = n" by (simp add: n_def tenths_def)
  have zero: "asc ''0'' = digits 0" by (simp add: asc_simps digits_small)
  have dot: "asc ''.'' = [46]" by (simp add: asc_simps)
  have neg: "(x < 0) = False" using assms by simp
  have unfold: "toFixed1 x =
     (let m = (if n = 0 then asc ''0'' else digits n);
          k = length m;
          m' = (if k \<le> 1 then replicate (1 + 1 - k) 48 @ m else m);
          k' = (if k \<le> 1 then 1 + 1 else k)
      in take (k' - 1) m' @ [46] @ drop (k' - 1) m')"
    unfolding toFixed1_def Let_def by (simp only: neg if_False nx dot append_Nil)
  show ?thesis
  proof (cases "n < 10")
    case True
    then have m: "(if n = 0 then asc ''0'' else digits n) = [48 + n]"
      by (auto simp: zero digits_small)
    have "n div 10 = 0" "n mod 10 = n" using True by simp_all
    then show ?thesis
      unfolding n_def[symmetric] unfold m by (simp add: digits_small Let_def)
  next
    case False
    then have m: "(if n = 0 then asc ''0'' else digits n) = digits (n div 10) @ [48 + n mod 10]"
      by (auto simp: digits_large)
    have "1 \<le> length (digits (n div 10))"
      using digits_nonempty[of "n div 10"] by (cases "digits (n div 10)") simp_all
    then show ?thesis
      unfolding n_def[symmetric] unfold m using digits_nonempty[of "n div 10"] by (simp add: Let_def)
  qed
qed

lemma takeWhile_digits_dot: "takeWhile is_digit (digits d @ 46 # r) = digits d"
proof -
  have "\<forall>u\<in>set (digits d). is_digit u"
    using digits_all_digit[of d] by (simp add: list_all_iff)
  moreover have "\<not> is_digit 46" by (simp add: is_digit_def)
  ultimately show ?thesis by (simp add: takeWhile_append2 takeWhile_eq_all_conv[THEN iffD2])
qed

lemma dropWhile_digits_dot: "dropWhile is_digit (digits d @ 46 # r) = 46 # r"
proof -
  have "\<forall>u\<in>set (digits d). is_digit u"
    using digits_all_digit[of d] by (simp add: list_all_iff)
  moreover have "\<not> is_digit 46" by (simp add: is_digit_def)
  ultimately show ?thesis by (simp add: dropWhile_append2)
qed

lemma hd_digits_is_digit: "is_digit (hd (digits d @ r))"
proof -
  obtain u us where "digits d = u # us" using digits_nonempty[of d] by (cases "digits d") auto
  moreover from this have "is_digit u" using digits_all_digit[of d] by simp
  ultimately show ?thesis by simp
qed

lemma parseNumber_toFixed1:
  assumes "0 \<le> x"
  shows "parseNumber (toFixed1 x) = Some (fl (of_nat (tenths x) / 10))"
proof -
  define n where "n = tenths x"
  define d where "d = n div 10"
  define r where "r = n mod 10"
  define s where "s = digits d @ 46 # [48 + r]"
  have s_eq: "toFixed1 x = s"
    using toFixed1_nonneg[OF assms] by (simp add: s_def d_def r_def n_def)
  have r10: "r < 10" by (simp add: r_def)
  have ne: "s \<noteq> []" by (simp add: s_def)
  have "is_digit (hd s)" unfolding s_def by (rule hd_digits_is_digit)
  then have sign: "hd s \<noteq> 45" "hd s \<noteq> 43" by (auto simp: is_digit_def)
  have ip: "takeWhile is_digit s = digits d" unfolding s_def by (rule takeWhile_digits_dot)
  have rest: "dropWhile is_digit s = 46 # [48 + r]" unfolding s_def by (rule dropWhile_digits_dot)
  have fpd: "is_digit (48 + r)" using r10 unfolding is_digit_def by linarith
  have val: "digits_value (digits d @ [48 + r]) = n"
    by (simp add: digits_value_snoc digits_value_digits d_def r_def)
  have "parseNumber s = Some (fl (of_nat n / 10))"
    using ne sign fpd digits_nonempty[of d]
    by (simp add: parseNumber_def Let_def ip rest val)
  then show ?thesis by (simp add: s_eq n_def)
qed

subsection \<open>The percent before formatting\<close>

lemma small_pow_le: "(2::rat) powi (- 1022) \<le> 1 / 2 ^ 60"
proof -
  have "(2::rat) powi (- 1022) \<le> 2 powi (- 60)" by (rule two_powi_mono) simp
  also have "\<dots> = 1 / 2 ^ 60" by (simp add: power_int_minus_divide)
  finally show ?thesis .
qed

lemma percent_err:
  fixes c t :: nat
  assumes c: "0 < c" "c < 2 ^ 53" and t: "0 < t" "t < 2 ^ 53"
  defines "q \<equiv> 100 * of_nat c / (of_nat t :: rat)"
  defines "x \<equiv> fl (fl (of_nat c / of_nat t) * 100)"
  shows "\<bar>x - q\<bar> \<le> 3 * q / 2 ^ 53" and "0 < x"
proof -
  define u :: rat where "u = 1 / 2 ^ 53"
  define r :: rat where "r = of_nat c / of_nat t"
  define x1 where "x1 = fl r"
  have upos: "0 < u" "u \<le> 1 / 2" by (simp_all add: u_def)
  have tr: "(of_nat t :: rat) < 2 ^ 53" using t(2)
    by (metis of_nat_less_iff of_nat_numeral of_nat_power)
  have tpos: "(0::rat) < of_nat t" using t(1) by simp
  have c1: "(1::rat) \<le> of_nat c" using c(1) by simp
  have rpos: "0 < r" using c(1) t(1) by (simp add: r_def)
  have r_low: "1 / 2 ^ 53 \<le> r"
    unfolding r_def using tr tpos c1 by (intro frac_le) simp_all
  have "(2::rat) powi (- 1022) \<le> 1 / 2 ^ 53"
    using small_pow_le by (rule order_trans) simp
  then have r_norm: "2 powi (- 1022) \<le> r" using r_low by (rule order_trans)
  have e1: "\<bar>x1 - r\<bar> \<le> r * u"
    using fl_err[OF r_norm] by (simp add: x1_def u_def)
  then have x1_low: "r * (1 - u) \<le> x1" and x1_up: "x1 \<le> r * (1 + u)"
    by (simp_all add: abs_le_iff algebra_simps)
  have "r * (1 / 2) \<le> r * (1 - u)"
    using rpos upos by (intro mult_left_mono) simp_all
  then have x1_half: "r / 2 \<le> x1" using x1_low by simp
  have "(2::rat) powi (- 1022) \<le> 1 / 2 ^ 60" by (rule small_pow_le)
  also have "\<dots> \<le> (1 / 2 ^ 53) / 2 * 100" by simp
  also have "\<dots> \<le> r / 2 * 100" using r_low by simp
  also have "\<dots> \<le> x1 * 100" using x1_half by simp
  finally have x_norm: "2 powi (- 1022) \<le> x1 * 100" .
  have x_eq: "x = fl (x1 * 100)" by (simp add: x_def x1_def r_def)
  have e2: "\<bar>x - x1 * 100\<bar> \<le> x1 * 100 * u"
    using fl_err[OF x_norm] by (simp add: x_eq u_def)
  have q_eq: "q = 100 * r" by (simp add: q_def r_def)
  have x1pos: "0 < x1" using x1_half rpos by simp
  have "\<bar>x - q\<bar> \<le> \<bar>x - x1 * 100\<bar> + \<bar>x1 * 100 - q\<bar>" by simp
  also have "\<bar>x1 * 100 - q\<bar> = 100 * \<bar>x1 - r\<bar>" by (simp add: q_eq abs_if)
  also have "\<bar>x - x1 * 100\<bar> + 100 * \<bar>x1 - r\<bar> \<le> x1 * 100 * u + 100 * (r * u)"
    using e1 e2 by simp
  also have "\<dots> \<le> r * (1 + u) * 100 * u + 100 * (r * u)"
    using x1_up upos by (simp add: mult_right_mono)
  also have "\<dots> = 100 * r * u * (2 + u)" by (simp add: algebra_simps)
  also have "\<dots> \<le> 100 * r * u * 3"
    using rpos upos by (intro mult_left_mono) simp_all
  finally show "\<bar>x - q\<bar> \<le> 3 * q / 2 ^ 53" by (simp add: q_eq u_def)
  have "x1 * 100 * (1 - u) \<le> x"
    using e2 by (simp add: abs_le_iff algebra_simps)
  moreover have "0 < x1 * 100 * (1 - u)" using x1pos upos by simp
  ultimately show "0 < x" by simp
qed

lemma tenths_zero: "tenths 0 = 0"
  by (simp add: tenths_def)

lemma tenths_floor:
  assumes "0 \<le> x"
  shows "of_nat (tenths x) \<le> x * 10 + 1 / 2" and "x * 10 + 1 / 2 < of_nat (tenths x) + 1"
proof -
  have nn: "0 \<le> \<lfloor>x * 10 + 1 / 2\<rfloor>" using assms by simp
  have "(of_nat (tenths x) :: rat) = of_int \<lfloor>x * 10 + 1 / 2\<rfloor>"
    unfolding tenths_def using nn by (metis of_nat_nat)
  moreover have "of_int \<lfloor>x * 10 + 1 / 2\<rfloor> \<le> x * 10 + 1 / 2"
    and "x * 10 + 1 / 2 < of_int \<lfloor>x * 10 + 1 / 2\<rfloor> + 1" by linarith+
  ultimately show "of_nat (tenths x) \<le> x * 10 + 1 / 2"
    and "x * 10 + 1 / 2 < of_nat (tenths x) + 1" by simp_all
qed

lemma percent_nearest:
  fixes c t :: nat
  assumes t: "0 < t" "t < 2 ^ 53" and c: "c < 2 ^ 40"
  defines "x \<equiv> fl (fl (of_nat c / of_nat t) * 100)"
  shows "\<bar>of_nat (tenths x) / 10 - 100 * of_nat c / (of_nat t :: rat)\<bar> \<le> 1 / 20"
proof (cases "c = 0")
  case True
  then show ?thesis by (simp add: x_def fl_zero tenths_zero)
next
  case False
  then have cpos: "0 < c" by simp
  have c53: "c < 2 ^ 53"
  proof -
    have "(2::nat) ^ 40 \<le> 2 ^ 53" by (rule power_increasing) simp_all
    with c show ?thesis by simp
  qed
  define T :: rat where "T = of_nat t"
  define C :: rat where "C = of_nat c"
  define q :: rat where "q = 100 * C / T"
  define n where "n = tenths x"
  define N :: rat where "N = of_nat n"
  have Tpos: "0 < T" using t(1) by (simp add: T_def)
  have Cpos: "0 < C" using cpos by (simp add: C_def)
  have Cup: "C < 2 ^ 40" unfolding C_def using c
    by (metis of_nat_less_iff of_nat_numeral of_nat_power)
  define d :: rat where "d = 3 * q / 2 ^ 53"
  have err: "\<bar>x - q\<bar> \<le> d" and xpos: "0 < x"
    using percent_err[OF cpos c53 t] by (simp_all add: x_def q_def C_def T_def d_def)
  have fl1: "N \<le> x * 10 + 1 / 2" and fl2: "x * 10 + 1 / 2 < N + 1"
    using tenths_floor[of x] xpos by (simp_all add: N_def n_def)
  have qT: "q * T = 100 * C" using Tpos by (simp add: q_def)
  have x_up: "x \<le> q + d" and x_low: "q - d \<le> x"
    using err by linarith+
  have dT: "d * T = 300 * C / 2 ^ 53"
    using qT by (simp add: d_def algebra_simps)
  have tiny: "20 * (d * T) < 1"
  proof -
    have "6000 * C < 6000 * 2 ^ 40" using Cup by simp
    also have "\<dots> \<le> (2::rat) ^ 53" by simp
    finally have "6000 * C / 2 ^ 53 < 1" by simp
    then show ?thesis by (simp add: dT)
  qed
  have upper: "2 * T * N \<le> 2000 * C + T"
  proof (rule ccontr)
    assume "\<not> 2 * T * N \<le> 2000 * C + T"
    then have "(of_nat (2000 * c + t) :: rat) < of_nat (2 * t * n)"
      by (simp add: T_def C_def N_def)
    then have "2000 * c + t < 2 * t * n" by (simp only: of_nat_less_iff)
    then have "2000 * c + t + 1 \<le> 2 * t * n" by simp
    then have "(of_nat (2000 * c + t + 1) :: rat) \<le> of_nat (2 * t * n)"
      by (simp only: of_nat_le_iff)
    then have gap: "2000 * C + T + 1 \<le> 2 * T * N"
      by (simp add: T_def C_def N_def)
    have "2 * T * N \<le> 2 * T * (x * 10 + 1 / 2)"
      using fl1 Tpos by (intro mult_left_mono) simp_all
    also have "\<dots> \<le> 2 * T * ((q + d) * 10 + 1 / 2)"
      using x_up Tpos by (intro mult_left_mono) simp_all
    also have "\<dots> = 20 * (q * T) + 20 * (d * T) + T"
      by (simp add: algebra_simps)
    also have "\<dots> = 2000 * C + 20 * (d * T) + T" by (simp add: qT)
    finally have "2 * T * N \<le> 2000 * C + 20 * (d * T) + T" .
    with gap tiny show False by linarith
  qed
  have lower: "2000 * C - T \<le> 2 * T * N"
  proof (rule ccontr)
    assume "\<not> 2000 * C - T \<le> 2 * T * N"
    then have "(of_nat (2 * t * n + t) :: rat) < of_nat (2000 * c)"
      by (simp add: T_def C_def N_def)
    then have "2 * t * n + t < 2000 * c" by (simp only: of_nat_less_iff)
    then have "2 * t * n + t + 1 \<le> 2000 * c" by simp
    then have "(of_nat (2 * t * n + t + 1) :: rat) \<le> of_nat (2000 * c)"
      by (simp only: of_nat_le_iff)
    then have gap: "2 * T * N + T + 1 \<le> 2000 * C"
      by (simp add: T_def C_def N_def)
    have "2 * T * ((q - d) * 10 + 1 / 2) \<le> 2 * T * (x * 10 + 1 / 2)"
      using x_low Tpos by (intro mult_left_mono) simp_all
    also have "\<dots> < 2 * T * (N + 1)"
      using fl2 Tpos by (intro mult_strict_left_mono) simp_all
    finally have "2 * T * ((q - d) * 10 + 1 / 2) < 2 * T * (N + 1)" .
    moreover have "2 * T * ((q - d) * 10 + 1 / 2) = 20 * (q * T) - 20 * (d * T) + T"
      by (simp add: algebra_simps)
    moreover have "2 * T * (N + 1) = 2 * T * N + 2 * T"
      by (simp add: algebra_simps)
    ultimately have "2000 * C - 20 * (d * T) + T < 2 * T * N + 2 * T"
      by (simp add: qT)
    with gap tiny show False by linarith
  qed
  have "\<bar>N / 10 - q\<bar> * (20 * T) = \<bar>2 * T * N - 2000 * C\<bar>"
  proof -
    have "(N / 10 - q) * (20 * T) = 2 * T * N - 20 * (q * T)" by (simp add: algebra_simps)
    then have "\<bar>(N / 10 - q) * (20 * T)\<bar> = \<bar>2 * T * N - 2000 * C\<bar>" by (simp add: qT)
    then show ?thesis using Tpos by (simp add: abs_mult)
  qed
  also have "\<dots> \<le> T" using upper lower by (simp add: abs_le_iff)
  finally have "\<bar>N / 10 - q\<bar> * (20 * T) \<le> (1 / 20) * (20 * T)" by simp
  then have "\<bar>N / 10 - q\<bar> \<le> 1 / 20"
    using Tpos by (simp only: mult_le_cancel_right)
  then show ?thesis by (simp add: N_def n_def q_def C_def T_def)
qed

lemma percent_tenths_le:
  fixes c t :: nat
  assumes t: "0 < t" "t < 2 ^ 53" and c: "c \<le> t"
  shows "tenths (fl (fl (of_nat c / of_nat t) * 100)) \<le> 1000"
proof (cases "c = 0")
  case True
  then show ?thesis by (simp add: fl_zero tenths_zero)
next
  case False
  then have cpos: "0 < c" by simp
  have c53: "c < 2 ^ 53" using c t(2) by simp
  define x where "x = fl (fl (of_nat c / of_nat t) * 100)"
  define q :: rat where "q = 100 * of_nat c / of_nat t"
  have err: "\<bar>x - q\<bar> \<le> 3 * q / 2 ^ 53" and xpos: "0 < x"
    using percent_err[OF cpos c53 t] unfolding x_def q_def by blast+
  have "(of_nat c :: rat) / of_nat t \<le> 1" using c t(1) by (simp add: divide_le_eq)
  then have "100 * (of_nat c / of_nat t :: rat) \<le> 100 * 1" by (intro mult_left_mono) simp_all
  then have q100: "q \<le> 100" by (simp add: q_def)
  have "3 * q / 2 ^ 53 \<le> 3 * 100 / 2 ^ 53" using q100 by (intro divide_right_mono mult_left_mono) simp_all
  also have "\<dots> \<le> 1 / 100" by simp
  finally have small: "3 * q / 2 ^ 53 \<le> 1 / 100" .
  have "x \<le> q + 3 * q / 2 ^ 53" using err by linarith
  with small q100 have "x * 10 + 1 / 2 < 1001" by linarith
  moreover have "of_nat (tenths x) \<le> x * 10 + 1 / 2" using tenths_floor(1)[of x] xpos by simp
  ultimately have "(of_nat (tenths x) :: rat) < of_nat 1001" by simp
  then have "tenths x < 1001" by (simp only: of_nat_less_iff)
  then show ?thesis by (simp add: x_def)
qed

subsection \<open>The number of filled cells\<close>

lemma fl_between:
  assumes "1 / 2 ^ 60 \<le> q"
  shows "q * (1 - 1 / 2 ^ 53) \<le> fl q" and "fl q \<le> q * (1 + 1 / 2 ^ 53)"
proof -
  have "2 powi (- 1022) \<le> q" using small_pow_le assms by (rule order_trans)
  then have "\<bar>fl q - q\<bar> \<le> q / 2 ^ 53" by (rule fl_err)
  then have "fl q - q \<le> q / 2 ^ 53" and "q - fl q \<le> q / 2 ^ 53" by linarith+
  then show "q * (1 - 1 / 2 ^ 53) \<le> fl q" and "fl q \<le> q * (1 + 1 / 2 ^ 53)"
    by (simp_all add: algebra_simps)
qed

lemma jsround_zero: "jsround 0 = 0"
proof -
  have "\<lfloor>(0::rat) + 1 / 2\<rfloor> = 0" by (rule floor_unique) simp_all
  then show ?thesis by (simp only: jsround_def)
qed

lemma fl_rel:
  fixes q Q d :: rat
  assumes close: "\<bar>q - Q\<bar> \<le> d * Q" and d: "0 \<le> d" "d \<le> 1 / 2" and Q: "1 / 2 ^ 59 \<le> Q"
  shows "\<bar>fl q - Q\<bar> \<le> (d + 2 / 2 ^ 53) * Q"
proof -
  have Qpos: "0 < Q" using Q by (rule less_le_trans[rotated]) simp
  have "d * Q \<le> (1 / 2) * Q" using d(2) Qpos by (intro mult_right_mono) simp_all
  with close have q_low: "Q / 2 \<le> q" and q_up: "q \<le> 2 * Q" by linarith+
  have "(1::rat) / 2 ^ 60 = (1 / 2 ^ 59) / 2" by simp
  also have "\<dots> \<le> Q / 2" using Q by (intro divide_right_mono) simp_all
  finally have "1 / 2 ^ 60 \<le> q" using q_low by (rule order_trans)
  then have "2 powi (- 1022) \<le> q" using small_pow_le by (rule order_trans[rotated])
  then have "\<bar>fl q - q\<bar> \<le> q / 2 ^ 53" by (rule fl_err)
  also have "\<dots> \<le> (2 * Q) / 2 ^ 53" using q_up by (intro divide_right_mono) simp_all
  finally have "\<bar>fl q - q\<bar> \<le> (2 / 2 ^ 53) * Q" by simp
  moreover have "\<bar>fl q - Q\<bar> \<le> \<bar>fl q - q\<bar> + \<bar>q - Q\<bar>" by simp
  ultimately have "\<bar>fl q - Q\<bar> \<le> (2 / 2 ^ 53) * Q + d * Q" using close by linarith
  then show ?thesis by (simp add: algebra_simps)
qed

lemma rel_div:
  fixes q Q d c :: rat
  assumes "\<bar>q - Q\<bar> \<le> d * Q" "0 < c"
  shows "\<bar>q / c - Q / c\<bar> \<le> d * (Q / c)"
proof -
  have "\<bar>q / c - Q / c\<bar> = \<bar>q - Q\<bar> / c"
    using assms(2) by (simp add: diff_divide_distrib[symmetric] abs_divide)
  also have "\<dots> \<le> (d * Q) / c" using assms by (intro divide_right_mono) simp_all
  finally show ?thesis by simp
qed

lemma rel_mult:
  fixes q Q d c :: rat
  assumes "\<bar>q - Q\<bar> \<le> d * Q" "0 < c"
  shows "\<bar>q * c - Q * c\<bar> \<le> d * (Q * c)"
proof -
  have "\<bar>q * c - Q * c\<bar> = \<bar>q - Q\<bar> * c"
    using assms(2) by (simp add: left_diff_distrib[symmetric] abs_mult)
  also have "\<dots> \<le> (d * Q) * c" using assms by (intro mult_right_mono) simp_all
  finally show ?thesis by (simp add: mult.assoc)
qed

lemma rel_small:
  fixes y Q :: rat
  assumes "\<bar>y - Q\<bar> \<le> (e / 2 ^ 53) * Q" "0 \<le> Q" "Q \<le> 20" "0 \<le> e" "e \<le> 8"
  shows "\<bar>y - Q\<bar> \<le> 1 / 100"
proof -
  have "(e / 2 ^ 53) * Q \<le> (8 / 2 ^ 53) * 20"
    using assms(2-5) by (intro mult_mono divide_right_mono) simp_all
  also have "\<dots> \<le> 1 / 100" by simp
  finally show ?thesis using assms(1) by linarith
qed

lemma jsround_near:
  fixes a :: int
  assumes "\<bar>y - of_int a / 50\<bar> \<le> 1 / 100" and "(a + 25) mod 50 \<noteq> 0"
  shows "jsround y = (a + 25) div 50"
proof -
  define k where "k = (a + 25) div 50"
  define r where "r = (a + 25) mod 50"
  have r: "1 \<le> r" "r \<le> 49"
    using assms(2) by (simp_all add: r_def)
  have "a + 25 = 50 * k + r" by (simp add: k_def r_def)
  then have "a = 50 * k + r - 25" by simp
  then have "(of_int a :: rat) = 50 * of_int k + of_int r - 25" by simp
  then have a: "(of_int a :: rat) / 50 = of_int k + of_int r / 50 - 1 / 2" by simp
  have r': "(1::rat) \<le> of_int r" "(of_int r :: rat) \<le> 49"
    using r by (simp_all only: of_int_le_iff[symmetric, where 'a = rat] of_int_1 of_int_numeral)
  have "of_int k \<le> y + 1 / 2"
    using assms(1) r' unfolding a by linarith
  moreover have "y + 1 / 2 < of_int k + 1"
    using assms(1) r' unfolding a by linarith
  ultimately have "\<lfloor>y + 1 / 2\<rfloor> = k" by (simp add: floor_unique)
  then show ?thesis by (simp add: jsround_def k_def)
qed

lemma tie_decompose:
  fixes n :: nat
  assumes "n \<le> 1000" "(int n + 25) mod 50 = 0"
  obtains k :: int where "1 \<le> k" "k \<le> 20" "int n = 50 * k - 25"
proof -
  define k where "k = (int n + 25) div 50"
  have "int n + 25 = 50 * k"
    using assms(2) div_mult_mod_eq[of "int n + 25" 50] unfolding k_def by simp
  moreover from this have "1 \<le> k" "k \<le> 20" using assms(1) by linarith+
  ultimately show ?thesis using that[of k] by simp
qed

lemma half_odd_exact:
  fixes j :: int
  assumes "0 < j" "j < 2 ^ 53"
  shows "fl (of_int j / 2) = of_int j / 2"
proof -
  have "fl (of_int j * 2 powi (- 1)) = of_int j * 2 powi (- 1)"
    using assms by (intro fl_dyadic) simp_all
  then show ?thesis by (simp add: power_int_minus_divide)
qed

lemma percent_tie_exact:
  fixes n :: nat and k :: int
  assumes "1 \<le> k" "k \<le> 20" "int n = 50 * k - 25"
  shows "fl (of_nat n / 10) = of_int (10 * k - 5) / 2"
proof -
  have "(of_nat n :: rat) = of_int (int n)" by simp
  also have "\<dots> = of_int (50 * k - 25)" by (simp only: assms(3))
  finally have eq: "(of_nat n :: rat) / 10 = of_int (10 * k - 5) / 2" by simp
  show ?thesis unfolding eq
  proof (rule half_odd_exact)
    show "0 < 10 * k - 5" using assms(1) by simp
    have "10 * k - 5 < 200" using assms(2) by simp
    also have "\<dots> < (2::int) ^ 53" by simp
    finally show "10 * k - 5 < 2 ^ 53" .
  qed
qed

lemma filled_v1:
  fixes n :: nat
  assumes "n \<le> 1000"
  shows "jsround (fl (fl (of_nat n / 10) / 5)) = (int n + 25) div 50"
proof (cases "n = 0")
  case True
  then show ?thesis by (simp add: fl_zero jsround_zero)
next
  case False
  show ?thesis
  proof (cases "(int n + 25) mod 50 = 0")
    case True
    from tie_decompose[OF assms True] obtain k :: int
      where k: "1 \<le> k" "k \<le> 20" "int n = 50 * k - 25" by blast
    have p: "fl (of_nat n / 10) = of_int (10 * k - 5) / 2" by (rule percent_tie_exact[OF k])
    have "of_int (10 * k - 5) / 2 / 5 = (of_int (2 * k - 1) / 2 :: rat)" by simp
    moreover have "fl (of_int (2 * k - 1) / 2) = of_int (2 * k - 1) / 2"
    proof (rule half_odd_exact)
      show "0 < 2 * k - 1" using k(1) by simp
      have "2 * k - 1 < 40" using k(2) by simp
      also have "\<dots> < (2::int) ^ 53" by simp
      finally show "2 * k - 1 < 2 ^ 53" .
    qed
    ultimately have "fl (fl (of_nat n / 10) / 5) = of_int (2 * k - 1) / 2"
      by (simp only: p)
    moreover have "(of_int (2 * k - 1) / 2 + 1 / 2 :: rat) = of_int k" by (simp add: field_simps)
    ultimately have "jsround (fl (fl (of_nat n / 10) / 5)) = k"
      by (simp only: jsround_def floor_of_int)
    moreover have "(int n + 25) div 50 = k" using k(3) by simp
    ultimately show ?thesis by simp
  next
    case nontie: False
    define N :: rat where "N = of_nat n"
    define p where "p = fl (N / 10)"
    define y where "y = fl (p / 5)"
    have N: "1 \<le> N" "N \<le> 1000"
      using False assms unfolding N_def
      by (simp_all add: Suc_le_eq of_nat_le_iff[where 'a = rat, of n 1000, simplified])
    have "(1::rat) / 2 ^ 59 \<le> 1 / 10" by simp
    also have "\<dots> \<le> N / 10" using N(1) by simp
    finally have "\<bar>p - N / 10\<bar> \<le> (0 + 2 / 2 ^ 53) * (N / 10)"
      unfolding p_def by (intro fl_rel) simp_all
    then have "\<bar>p / 5 - N / 10 / 5\<bar> \<le> (0 + 2 / 2 ^ 53) * (N / 10 / 5)"
      by (intro rel_div) simp_all
    then have "\<bar>p / 5 - N / 50\<bar> \<le> (2 / 2 ^ 53) * (N / 50)" by simp
    moreover have "(1::rat) / 2 ^ 59 \<le> 1 / 50" by simp
    then have "1 / 2 ^ 59 \<le> N / 50" using N(1) by simp
    ultimately have "\<bar>y - N / 50\<bar> \<le> (2 / 2 ^ 53 + 2 / 2 ^ 53) * (N / 50)"
      unfolding y_def by (intro fl_rel) simp_all
    then have "\<bar>y - N / 50\<bar> \<le> (4 / 2 ^ 53) * (N / 50)" by simp
    then have "\<bar>y - N / 50\<bar> \<le> 1 / 100"
      using N by (intro rel_small[where e = 4]) simp_all
    then have "\<bar>y - of_int (int n) / 50\<bar> \<le> 1 / 100" by (simp add: N_def)
    from jsround_near[OF this nontie] show ?thesis by (simp add: y_def p_def N_def)
  qed
qed

lemma rne_tie_even:
  assumes "\<bar>y - of_int m\<bar> \<le> 1 / 2" "even m"
  shows "rne y = m"
proof (cases "\<bar>y - of_int m\<bar> < 1 / 2")
  case True
  then show ?thesis by (rule rne_unique)
next
  case False
  with assms(1) have "\<bar>y - of_int m\<bar> = 1 / 2" by simp
  then consider "y = of_int m + 1 / 2" | "y = of_int m - 1 / 2" by (auto simp: abs_if split: if_splits)
  then show ?thesis
  proof cases
    case 1
    have "\<lfloor>y\<rfloor> = m" unfolding 1 by (rule floor_unique) simp_all
    then show ?thesis using assms(2) by (simp add: rne_def Let_def 1)
  next
    case 2
    have "\<lfloor>y\<rfloor> = m - 1" unfolding 2 by (rule floor_unique) simp_all
    then show ?thesis using assms(2) by (simp add: rne_def Let_def 2)
  qed
qed

lemma fl_eqI_even:
  assumes "2 powi (52 + e) \<le> q" "q < 2 powi (53 + e)" "- 1074 \<le> e"
    and "\<bar>q - of_int m * 2 powi e\<bar> \<le> 2 powi e / 2" "even m"
  shows "fl q = of_int m * 2 powi e"
proof -
  have pos: "0 < q" using assms(1) two_powi_pos[of "52 + e"] by (rule less_le_trans[rotated])
  have "53 + e = 52 + e + 1" by simp
  then have "expo2 q = 52 + e"
    using expo2_unique[OF pos assms(1)] assms(2) by simp
  then have sc: "max (expo2 q - 52) (- 1074) = e" using assms(3) by simp
  have p: "(0::rat) < 2 powi e" by (rule two_powi_pos)
  have "q / 2 powi e - of_int m = (q - of_int m * 2 powi e) / 2 powi e"
    using p by (simp add: field_simps)
  then have "\<bar>q / 2 powi e - of_int m\<bar> = \<bar>q - of_int m * 2 powi e\<bar> / 2 powi e"
    using p by (simp add: abs_divide)
  also have "\<dots> \<le> (2 powi e / 2) / 2 powi e"
    using assms(4) p by (intro divide_right_mono) simp_all
  also have "\<dots> = 1 / 2" using p by simp
  finally have "rne (q / 2 powi e) = m" using assms(5) by (rule rne_tie_even)
  then show ?thesis using fl_scaled[OF pos] sc by simp
qed

lemma tie_cert:
  assumes "2 powi (52 + e1) \<le> w" "w < 2 powi (53 + e1)" "- 1074 \<le> e1"
    and "\<bar>w - of_int m1 * 2 powi e1\<bar> < 2 powi e1 / 2"
    and "2 powi (52 + e2) \<le> (of_int m1 :: rat) * 2 powi e1 * 20"
    and "(of_int m1 :: rat) * 2 powi e1 * 20 < 2 powi (53 + e2)" "- 1074 \<le> e2"
    and "\<bar>(of_int m1 :: rat) * 2 powi e1 * 20 - of_int m2 * 2 powi e2\<bar> \<le> 2 powi e2 / 2"
    and "even m2"
  shows "fl (fl w * 20) = of_int m2 * 2 powi e2"
proof -
  have "fl w = of_int m1 * 2 powi e1" using assms(1-4) by (rule fl_eqI)
  then show ?thesis using fl_eqI_even[OF assms(5-9)] by simp
qed

lemma ties_v3_cases:
  shows "fl (fl (1 / 40) * 20) = 1 / 2"
    and "fl (fl (3 / 40) * 20) = 3 / 2"
    and "fl (fl (1 / 8) * 20) = 5 / 2"
    and "fl (fl (7 / 40) * 20) = 7 / 2"
    and "fl (fl (9 / 40) * 20) = 9 / 2"
    and "fl (fl (11 / 40) * 20) = 11 / 2"
    and "fl (fl (13 / 40) * 20) = 13 / 2"
    and "fl (fl (3 / 8) * 20) = 15 / 2"
    and "fl (fl (17 / 40) * 20) = 17 / 2"
    and "fl (fl (19 / 40) * 20) = 19 / 2"
    and "fl (fl (21 / 40) * 20) = 21 / 2"
    and "fl (fl (23 / 40) * 20) = 23 / 2"
    and "fl (fl (5 / 8) * 20) = 25 / 2"
    and "fl (fl (27 / 40) * 20) = 27 / 2"
    and "fl (fl (29 / 40) * 20) = 29 / 2"
    and "fl (fl (31 / 40) * 20) = 31 / 2"
    and "fl (fl (33 / 40) * 20) = 33 / 2"
    and "fl (fl (7 / 8) * 20) = 35 / 2"
    and "fl (fl (37 / 40) * 20) = 37 / 2"
    and "fl (fl (39 / 40) * 20) = 39 / 2"
proof -
  show "fl (fl (1 / 40) * 20) = 1 / 2"
    using tie_cert[of "- 58" "1 / 40" 7205759403792794 "- 53" 4503599627370496] by simp
  show "fl (fl (3 / 40) * 20) = 3 / 2"
    using tie_cert[of "- 56" "3 / 40" 5404319552844595 "- 52" 6755399441055744] by simp
  show "fl (fl (1 / 8) * 20) = 5 / 2"
    using tie_cert[of "- 55" "1 / 8" 4503599627370496 "- 51" 5629499534213120] by simp
  show "fl (fl (7 / 40) * 20) = 7 / 2"
    using tie_cert[of "- 55" "7 / 40" 6305039478318694 "- 51" 7881299347898368] by simp
  show "fl (fl (9 / 40) * 20) = 9 / 2"
    using tie_cert[of "- 55" "9 / 40" 8106479329266893 "- 50" 5066549580791808] by simp
  show "fl (fl (11 / 40) * 20) = 11 / 2"
    using tie_cert[of "- 54" "11 / 40" 4953959590107546 "- 50" 6192449487634432] by simp
  show "fl (fl (13 / 40) * 20) = 13 / 2"
    using tie_cert[of "- 54" "13 / 40" 5854679515581645 "- 50" 7318349394477056] by simp
  show "fl (fl (3 / 8) * 20) = 15 / 2"
    using tie_cert[of "- 54" "3 / 8" 6755399441055744 "- 50" 8444249301319680] by simp
  show "fl (fl (17 / 40) * 20) = 17 / 2"
    using tie_cert[of "- 54" "17 / 40" 7656119366529843 "- 49" 4785074604081152] by simp
  show "fl (fl (19 / 40) * 20) = 19 / 2"
    using tie_cert[of "- 54" "19 / 40" 8556839292003942 "- 49" 5348024557502464] by simp
  show "fl (fl (21 / 40) * 20) = 21 / 2"
    using tie_cert[of "- 53" "21 / 40" 4728779608739021 "- 49" 5910974510923776] by simp
  show "fl (fl (23 / 40) * 20) = 23 / 2"
    using tie_cert[of "- 53" "23 / 40" 5179139571476070 "- 49" 6473924464345088] by simp
  show "fl (fl (5 / 8) * 20) = 25 / 2"
    using tie_cert[of "- 53" "5 / 8" 5629499534213120 "- 49" 7036874417766400] by simp
  show "fl (fl (27 / 40) * 20) = 27 / 2"
    using tie_cert[of "- 53" "27 / 40" 6079859496950170 "- 49" 7599824371187712] by simp
  show "fl (fl (29 / 40) * 20) = 29 / 2"
    using tie_cert[of "- 53" "29 / 40" 6530219459687219 "- 49" 8162774324609024] by simp
  show "fl (fl (31 / 40) * 20) = 31 / 2"
    using tie_cert[of "- 53" "31 / 40" 6980579422424269 "- 49" 8725724278030336] by simp
  show "fl (fl (33 / 40) * 20) = 33 / 2"
    using tie_cert[of "- 53" "33 / 40" 7430939385161318 "- 48" 4644337115725824] by simp
  show "fl (fl (7 / 8) * 20) = 35 / 2"
    using tie_cert[of "- 53" "7 / 8" 7881299347898368 "- 48" 4925812092436480] by simp
  show "fl (fl (37 / 40) * 20) = 37 / 2"
    using tie_cert[of "- 53" "37 / 40" 8331659310635418 "- 48" 5207287069147136] by simp
  show "fl (fl (39 / 40) * 20) = 39 / 2"
    using tie_cert[of "- 53" "39 / 40" 8782019273372467 "- 48" 5488762045857792] by simp
qed

lemma ties_v3:
  fixes k :: int
  assumes "1 \<le> k" "k \<le> 20"
  shows "fl (fl (of_int (2 * k - 1) / 40) * 20) = of_int (2 * k - 1) / 2"
proof -
  from assms have "k = 1 \<or> k = 2 \<or> k = 3 \<or> k = 4 \<or> k = 5 \<or> k = 6 \<or> k = 7 \<or> k = 8 \<or> k = 9 \<or> k = 10 \<or> k = 11 \<or> k = 12 \<or> k = 13 \<or> k = 14 \<or> k = 15 \<or> k = 16 \<or> k = 17 \<or> k = 18 \<or> k = 19 \<or> k = 20"
    by arith
  then show ?thesis
    by (elim disjE) (simp_all add: ties_v3_cases)
qed

lemma filled_v3:
  fixes n :: nat
  assumes "n \<le> 1000"
  shows "jsround (fl (fl (fl (of_nat n / 10) / 100) * 20)) = (int n + 25) div 50"
proof (cases "n = 0")
  case True
  then show ?thesis by (simp add: fl_zero jsround_zero)
next
  case False
  show ?thesis
  proof (cases "(int n + 25) mod 50 = 0")
    case True
    from tie_decompose[OF assms True] obtain k :: int
      where k: "1 \<le> k" "k \<le> 20" "int n = 50 * k - 25" by blast
    have p: "fl (of_nat n / 10) = of_int (10 * k - 5) / 2" by (rule percent_tie_exact[OF k])
    have "of_int (10 * k - 5) / 2 / 100 = (of_int (2 * k - 1) / 40 :: rat)" by simp
    then have "fl (fl (fl (of_nat n / 10) / 100) * 20) = of_int (2 * k - 1) / 2"
      using ties_v3[OF k(1,2)] by (simp only: p)
    moreover have "(of_int (2 * k - 1) / 2 + 1 / 2 :: rat) = of_int k" by (simp add: field_simps)
    ultimately have "jsround (fl (fl (fl (of_nat n / 10) / 100) * 20)) = k"
      by (simp only: jsround_def floor_of_int)
    moreover have "(int n + 25) div 50 = k" using k(3) by simp
    ultimately show ?thesis by simp
  next
    case nontie: False
    define N :: rat where "N = of_nat n"
    define p where "p = fl (N / 10)"
    define z where "z = fl (p / 100)"
    define y where "y = fl (z * 20)"
    have N: "1 \<le> N" "N \<le> 1000"
      using False assms unfolding N_def
      by (simp_all add: Suc_le_eq of_nat_le_iff[where 'a = rat, of n 1000, simplified])
    have "(1::rat) / 2 ^ 59 \<le> 1 / 10" by simp
    also have "\<dots> \<le> N / 10" using N(1) by simp
    finally have "\<bar>p - N / 10\<bar> \<le> (0 + 2 / 2 ^ 53) * (N / 10)"
      unfolding p_def by (intro fl_rel) simp_all
    then have "\<bar>p / 100 - N / 10 / 100\<bar> \<le> (0 + 2 / 2 ^ 53) * (N / 10 / 100)"
      by (intro rel_div) simp_all
    then have "\<bar>p / 100 - N / 1000\<bar> \<le> (2 / 2 ^ 53) * (N / 1000)" by simp
    moreover have "(1::rat) / 2 ^ 59 \<le> 1 / 1000" by simp
    then have "1 / 2 ^ 59 \<le> N / 1000" using N(1) by simp
    ultimately have "\<bar>z - N / 1000\<bar> \<le> (2 / 2 ^ 53 + 2 / 2 ^ 53) * (N / 1000)"
      unfolding z_def by (intro fl_rel) simp_all
    then have "\<bar>z * 20 - N / 1000 * 20\<bar> \<le> (2 / 2 ^ 53 + 2 / 2 ^ 53) * (N / 1000 * 20)"
      by (intro rel_mult) simp_all
    then have "\<bar>z * 20 - N / 50\<bar> \<le> (4 / 2 ^ 53) * (N / 50)" by simp
    moreover have "(1::rat) / 2 ^ 59 \<le> 1 / 50" by simp
    then have "1 / 2 ^ 59 \<le> N / 50" using N(1) by simp
    ultimately have "\<bar>y - N / 50\<bar> \<le> (4 / 2 ^ 53 + 2 / 2 ^ 53) * (N / 50)"
      unfolding y_def by (intro fl_rel) simp_all
    then have "\<bar>y - N / 50\<bar> \<le> (6 / 2 ^ 53) * (N / 50)" by simp
    then have "\<bar>y - N / 50\<bar> \<le> 1 / 100"
      using N by (intro rel_small[where e = 6]) simp_all
    then have "\<bar>y - of_int (int n) / 50\<bar> \<le> 1 / 100" by (simp add: N_def)
    from jsround_near[OF this nontie] show ?thesis by (simp add: y_def z_def p_def N_def)
  qed
qed

lemma bar_of_ok:
  assumes "0 \<le> f" "f \<le> w"
  shows "bar_of f w = Inr (concat (replicate (nat f) FULL) @ concat (replicate (nat (w - f)) SHADE))"
  using assms by (simp add: bar_of_def repeat_def)

lemma length_bar:
  "length (concat (replicate a FULL) @ concat (replicate b SHADE)) = a + b"
  by (simp add: FULL_def SHADE_def length_concat sum_list_replicate)

lemma filled_nat:
  fixes n :: nat
  shows "(int n + 25) div 50 = int ((n + 25) div 50)"
  by (simp add: zdiv_int)

lemma getBar_text:
  assumes "0 \<le> x" "tenths x \<le> 1000"
  shows "getBar (Text (toFixed1 x)) =
     Inr (concat (replicate ((tenths x + 25) div 50) FULL) @
          concat (replicate (20 - (tenths x + 25) div 50) SHADE))"
proof -
  define n where "n = tenths x"
  define f where "f = (n + 25) div 50"
  have f20: "f \<le> 20" using assms(2) by (simp add: f_def n_def)
  have "toNumber (Text (toFixed1 x)) = Some (fl (of_nat n / 10))"
    using parseNumber_toFixed1[OF assms(1)] by (simp add: toNumber_def n_def)
  moreover have "jsround (fl (fl (of_nat n / 10) / 5)) = int f"
    using filled_v1[of n] assms(2) by (simp add: n_def f_def filled_nat)
  ultimately have "getBar (Text (toFixed1 x)) = bar_of (int f) 20"
    by (simp add: getBar_def Let_def)
  also have "\<dots> = Inr (concat (replicate (nat (int f)) FULL) @ concat (replicate (nat (20 - int f)) SHADE))"
    using f20 by (intro bar_of_ok) simp_all
  also have "nat (20 - int f) = 20 - f" by simp
  finally show ?thesis by (simp add: f_def n_def)
qed

lemma getBar_v3_text:
  assumes "0 \<le> x" "tenths x \<le> 1000"
  shows "getBar_v3 (toFixed1 x) =
     Inr (concat (replicate ((tenths x + 25) div 50) FULL) @
          concat (replicate (20 - (tenths x + 25) div 50) SHADE))"
proof -
  define n where "n = tenths x"
  define f where "f = (n + 25) div 50"
  have f20: "f \<le> 20" using assms(2) by (simp add: f_def n_def)
  have "parseNumber (toFixed1 x) = Some (fl (of_nat n / 10))"
    using parseNumber_toFixed1[OF assms(1)] by (simp add: n_def)
  moreover have "jsround (fl (fl (fl (of_nat n / 10) / 100) * 20)) = int f"
    using filled_v3[of n] assms(2) by (simp add: n_def f_def filled_nat)
  ultimately have "getBar_v3 (toFixed1 x) = bar_of (int f) 20"
    by (simp add: getBar_v3_def Let_def BAR_WIDTH_def)
  also have "\<dots> = Inr (concat (replicate (nat (int f)) FULL) @ concat (replicate (nat (20 - int f)) SHADE))"
    using f20 by (intro bar_of_ok) simp_all
  also have "nat (20 - int f) = 20 - f" by simp
  finally show ?thesis by (simp add: f_def n_def)
qed

lemma getBar_Zero: "getBar Zero = Inr (concat (replicate 20 SHADE))"
proof -
  have "getBar Zero = bar_of 0 20"
    by (simp add: getBar_def toNumber_def fl_zero jsround_zero)
  also have "\<dots> = Inr (concat (replicate (nat 0) FULL) @ concat (replicate (nat (20 - 0)) SHADE))"
    by (intro bar_of_ok) simp_all
  finally show ?thesis by simp
qed

lemma fl_nonneg:
  assumes "0 \<le> q"
  shows "0 \<le> fl q"
proof (cases "q = 0")
  case True
  then show ?thesis by (simp add: fl_zero)
next
  case False
  with assms have pos: "0 < q" by simp
  define e where "e = max (expo2 q - 52) (- 1074)"
  have "0 \<le> q / 2 powi e" using pos by simp
  then have "0 \<le> \<lfloor>q / 2 powi e\<rfloor>" by (simp only: zero_le_floor)
  moreover have "\<lfloor>q / 2 powi e\<rfloor> \<le> rne (q / 2 powi e)"
    by (simp add: rne_def Let_def)
  ultimately have "0 \<le> rne (q / 2 powi e)" by (rule order_trans)
  then have "0 \<le> (of_int (rne (q / 2 powi e)) :: rat) * 2 powi e" by simp
  then show ?thesis using fl_scaled[OF pos] by (simp add: e_def)
qed


section \<open>Properties of the renderer\<close>

subsection \<open>Evaluation at concrete numbers\<close>

lemma floor_rat_numeral: "\<lfloor>numeral a / numeral b :: rat\<rfloor> = numeral a div numeral b"
  using floor_divide_of_int_eq[of "numeral a" "numeral b", where ?'a = rat] by simp

lemma fl_int:
  assumes "0 < m" "m < 2 ^ 53"
  shows "fl (of_int m) = of_int m"
  using fl_dyadic[OF assms, of 0] by simp

lemma fl_quarters:
  assumes "0 < m" "m < 2 ^ 53"
  shows "fl (of_int m / 4) = of_int m / 4"
  using fl_dyadic[OF assms, of "- 2"] by (simp add: power_int_minus_divide)

lemma fl_values: "fl (1 / 2) = 1 / 2" "fl (1 / 4) = 1 / 4" "fl 50 = 50" "fl 25 = 25" "fl 100 = 100"
  using half_odd_exact[of 1] fl_quarters[of 1] fl_int[of 50] fl_int[of 25] fl_int[of 100]
  by simp_all

lemma tenths_eval: "tenths 50 = 500" "tenths 25 = 250" "tenths 0 = 0" "tenths 100 = 1000"
  by (simp_all add: tenths_def floor_rat_numeral)

lemma digits_eval: "digits 0 = [48]" "digits 1 = [49]" "digits 2 = [50]" "digits 5 = [53]"
  "digits 50 = [53, 48]" "digits 25 = [50, 53]" "digits 100 = [49, 48, 48]" "digits 28 = [50, 56]"
proof -
  show "digits 0 = [48]" "digits 1 = [49]" "digits 2 = [50]" "digits 5 = [53]"
    by (simp_all add: digits_small)
  then show "digits 50 = [53, 48]" "digits 25 = [50, 53]" "digits 28 = [50, 56]"
    by (simp_all add: digits_large)
  have "digits 10 = [49, 48]" using \<open>digits 1 = [49]\<close> by (simp add: digits_large)
  then show "digits 100 = [49, 48, 48]" by (simp add: digits_large)
qed

lemma cert_23_80: "fl (fl (23 / 80) * 100) = 8092405580431359 / 281474976710656"
proof -
  have a: "fl (23 / 80) = of_int 5179139571476070 * 2 powi (- 54)"
    by (rule fl_eqI) simp_all
  have b: "fl (of_int 5179139571476070 * 2 powi (- 54) * 100) = of_int 8092405580431359 * 2 powi (- 48)"
    by (rule fl_eqI) simp_all
  have "fl (fl (23 / 80) * 100) = of_int 8092405580431359 * 2 powi (- 48)"
    by (simp only: a b)
  then show ?thesis by simp
qed

subsection \<open>The percent\<close>

lemma asc_dot: "asc ''.'' = [46]"
  by (simp add: asc_simps)

lemma tenths_near:
  assumes "0 \<le> x"
  shows "\<bar>of_nat (tenths x) / 10 - x\<bar> \<le> 1 / 20"
  using tenths_floor[OF assms] by linarith

lemma toFixed1_digits:
  assumes "0 \<le> x"
  shows "toFixed1 x = digits (tenths x div 10) @ asc ''.'' @ digits (tenths x mod 10)"
proof -
  have "digits (tenths x mod 10) = [48 + tenths x mod 10]" by (simp add: digits_small)
  then show ?thesis using toFixed1_nonneg[OF assms] by (simp add: asc_dot)
qed

lemma percent_nonneg: "0 \<le> fl (fl (of_nat num / of_nat t) * 100)"
proof -
  have "0 \<le> of_nat num / (of_nat t :: rat)" by simp
  then have "0 \<le> fl (of_nat num / of_nat t) * 100"
    using fl_nonneg by simp
  then show ?thesis by (rule fl_nonneg)
qed

lemma getPercent_nonzero:
  fixes st :: stats and num :: nat
  assumes "total st \<noteq> 0"
  defines "n \<equiv> tenths (fl (fl (of_nat num / of_nat (total st)) * 100))"
  shows "getPercent st num = Text (digits (n div 10) @ asc ''.'' @ digits (n mod 10))"
    and "getPercent_v3 st num = digits (n div 10) @ asc ''.'' @ digits (n mod 10)"
  using assms(1) toFixed1_digits[OF percent_nonneg, of num "total st"]
  by (simp_all add: getPercent_def getPercent_v3_def n_def)

lemma toFixed1_zero: "toFixed1 0 = asc ''0.0''"
  using toFixed1_nonneg[of 0] by (simp add: tenths_zero digits_small asc_simps)

text \<open>
  Claim C4. When the total is 0 the percent is 0: the number literal in \<open>v1\<close>, \<open>v2\<close> and
  \<open>v4\<close>, the string \<^verbatim>\<open>0.0\<close> in \<open>v3\<close>; the conditional selects that branch, so the
  quotient is not formed. When the total is not 0, the percent is the binary64 value \<open>x\<close>
  of \<^verbatim>\<open>(num / total) * 100\<close> written with one decimal: the string shows \<open>n\<close> tenths, where
  \<open>n / 10\<close> is within one twentieth of \<open>x\<close> (counters are taken below \<open>2^53\<close>, where
  JavaScript holds them exactly). For a count below \<open>2^40\<close> the displayed value is also
  within one twentieth of the exact quotient \<open>100 num / total\<close>: it is that quotient
  rounded to one decimal place.
\<close>

theorem percent_rounded_to_one_decimal:
  "(total st = 0 \<longrightarrow>
      getPercent st num = Zero \<and> toNumber (getPercent st num) = Some 0 \<and>
      getPercent_v3 st num = asc ''0.0'' \<and> parseNumber (getPercent_v3 st num) = Some 0) \<and>
   (total st \<noteq> 0 \<and> total st < 2 ^ 53 \<and> num < 2 ^ 53 \<longrightarrow>
      (let x = fl (fl (of_nat num / of_nat (total st)) * 100); n = tenths x
       in getPercent st num = Text (digits (n div 10) @ asc ''.'' @ digits (n mod 10)) \<and>
          getPercent_v3 st num = digits (n div 10) @ asc ''.'' @ digits (n mod 10) \<and>
          \<bar>of_nat n / 10 - x\<bar> \<le> 1 / 20 \<and>
          (num < 2 ^ 40 \<longrightarrow>
             \<bar>of_nat n / 10 - 100 * of_nat num / (of_nat (total st) :: rat)\<bar> \<le> 1 / 20)))"
proof (intro conjI impI)
  assume z: "total st = 0"
  show "getPercent st num = Zero" using z by (simp add: getPercent_def)
  then show "toNumber (getPercent st num) = Some 0" by (simp add: toNumber_def)
  show v3: "getPercent_v3 st num = asc ''0.0''" using z by (simp add: getPercent_v3_def toFixed1_zero)
  have "parseNumber (toFixed1 0) = Some (fl (of_nat (tenths 0) / 10))"
    by (rule parseNumber_toFixed1) simp
  then show "parseNumber (getPercent_v3 st num) = Some 0"
    using z by (simp add: getPercent_v3_def tenths_zero fl_zero)
next
  assume range: "total st \<noteq> 0 \<and> total st < 2 ^ 53 \<and> num < 2 ^ 53"
  then have nz: "total st \<noteq> 0" and safe: "total st < 2 ^ 53" by simp_all
  define x where "x = fl (fl (of_nat num / of_nat (total st)) * 100)"
  define n where "n = tenths x"
  have nn: "0 \<le> x" unfolding x_def by (rule percent_nonneg)
  have near: "\<bar>of_nat n / 10 - x\<bar> \<le> 1 / 20" unfolding n_def by (rule tenths_near[OF nn])
  have exact: "\<bar>of_nat n / 10 - 100 * of_nat num / (of_nat (total st) :: rat)\<bar> \<le> 1 / 20"
    if "num < 2 ^ 40"
    using percent_nearest[of "total st" num] that nz safe by (simp add: n_def x_def)
  show "let x = fl (fl (of_nat num / of_nat (total st)) * 100); n = tenths x
       in getPercent st num = Text (digits (n div 10) @ asc ''.'' @ digits (n mod 10)) \<and>
          getPercent_v3 st num = digits (n div 10) @ asc ''.'' @ digits (n mod 10) \<and>
          \<bar>of_nat n / 10 - x\<bar> \<le> 1 / 20 \<and>
          (num < 2 ^ 40 \<longrightarrow>
             \<bar>of_nat n / 10 - 100 * of_nat num / (of_nat (total st) :: rat)\<bar> \<le> 1 / 20)"
    unfolding Let_def x_def[symmetric] n_def[symmetric]
    using getPercent_nonzero[OF nz, of num] near exact by (simp add: x_def n_def)
qed

lemma tenths_23_80: "tenths (fl (fl (23 / 80) * 100)) = 287"
  by (simp add: cert_23_80 tenths_def floor_rat_numeral)

text \<open>
  Zero statistics, and 23 commits of 80: the exact quotient 28.75 lies halfway between two
  tenths, the binary64 value lies just below it, and the script displays 28.7.
\<close>

theorem percent_rounded_to_one_decimal_witness:
  "getPercent zero_stats 0 = Zero \<and> getPercent_v3 zero_stats 0 = asc ''0.0'' \<and>
   getPercent skewed_stats 23 = Text (asc ''28.7'') \<and>
   getPercent_v3 skewed_stats 23 = asc ''28.7'' \<and>
   \<bar>287 / 10 - 100 * 23 / (80 :: rat)\<bar> \<le> 1 / 20"
proof -
  have t: "tenths (fl (fl (of_nat 23 / of_nat (total skewed_stats)) * 100)) = 287"
    using tenths_23_80 by (simp add: skewed_stats_def)
  have z: "total zero_stats = 0" by (simp add: zero_stats_def)
  have s: "total skewed_stats \<noteq> 0 \<and> total skewed_stats < 2 ^ 53 \<and> (23::nat) < 2 ^ 53"
    "(23::nat) < 2 ^ 40"
    by (simp_all add: skewed_stats_def)
  have d: "digits 28 @ asc ''.'' @ digits 7 = asc ''28.7''"
    by (simp add: digits_small digits_large asc_simps)
  from percent_rounded_to_one_decimal[of zero_stats 0] z
  have "getPercent zero_stats 0 = Zero \<and> getPercent_v3 zero_stats 0 = asc ''0.0''" by simp
  moreover from percent_rounded_to_one_decimal[of skewed_stats 23] s
  have "getPercent skewed_stats 23 = Text (asc ''28.7'') \<and>
        getPercent_v3 skewed_stats 23 = asc ''28.7'' \<and>
        \<bar>287 / 10 - 100 * 23 / (80 :: rat)\<bar> \<le> 1 / 20"
    unfolding Let_def t by (simp add: d skewed_stats_def)
  ultimately show ?thesis by simp
qed

subsection \<open>The bar\<close>

lemma tenths_le_1000:
  assumes "0 \<le> x" "x \<le> 100"
  shows "tenths x \<le> 1000"
proof -
  have "of_nat (tenths x) \<le> x * 10 + 1 / 2" by (rule tenths_floor(1)[OF assms(1)])
  also have "\<dots> < 1001" using assms(2) by simp
  finally have "(of_nat (tenths x) :: rat) < of_nat 1001" by simp
  then have "tenths x < 1001" by (simp only: of_nat_less_iff)
  then show ?thesis by simp
qed

lemma filled_exact:
  fixes n :: nat
  shows "nat \<lfloor>(of_nat n / 10 :: rat) / 100 * 20 + 1 / 2\<rfloor> = (n + 25) div 50"
proof -
  have "(of_nat n / 10 :: rat) / 100 * 20 + 1 / 2 = of_int (int n + 25) / of_int 50"
    by (simp add: field_simps)
  then have "\<lfloor>(of_nat n / 10 :: rat) / 100 * 20 + 1 / 2\<rfloor> = (int n + 25) div 50"
    by (simp only: floor_divide_of_int_eq)
  then show ?thesis by (simp add: filled_nat)
qed

text \<open>
  Claim C5. \<open>getBar\<close> receives what \<open>getPercent\<close> returns. For every number \<open>x\<close> in
  \<open>[0, 100]\<close> formatted by \<^verbatim>\<open>toFixed(1)\<close>, with \<open>p\<close> the displayed percent, the bar is
  \<open>filled = round(p / 100 * 20)\<close> full glyphs followed by \<open>20 - filled\<close> shaded glyphs, in
  all variants (the expression \<^verbatim>\<open>percent / 5\<close> of \<open>v1\<close>, \<open>v2\<close>, \<open>v4\<close> and the expression
  \<^verbatim>\<open>(percent / 100) * BAR_WIDTH\<close> of \<open>v3\<close> give the same count in binary64). The bar is 20
  code units long; it is all shaded for percent 0 (also for the bare number 0 that \<open>v1\<close>,
  \<open>v2\<close> and \<open>v4\<close> pass when the total is 0) and all full for percent 100.
\<close>

theorem bar_of_percent:
  "0 \<le> x \<and> x \<le> 100 \<Longrightarrow>
     (let p = (of_nat (tenths x) / 10 :: rat);
          filled = nat \<lfloor>p / 100 * 20 + 1 / 2\<rfloor>;
          bar = concat (replicate filled FULL) @ concat (replicate (20 - filled) SHADE)
      in getBar (Text (toFixed1 x)) = Inr bar \<and> getBar_v3 (toFixed1 x) = Inr bar \<and>
         filled \<le> 20 \<and> length bar = 20 \<and>
         (p = 0 \<longrightarrow> bar = concat (replicate 20 SHADE)) \<and>
         (p = 100 \<longrightarrow> bar = concat (replicate 20 FULL))) \<and>
     getBar Zero = Inr (concat (replicate 20 SHADE)) \<and> length (concat (replicate 20 SHADE)) = 20"
proof -
  assume x: "0 \<le> x \<and> x \<le> 100"
  have zero_len: "length (concat (replicate 20 SHADE)) = 20"
    using length_bar[of 0 20] by simp
  define n where "n = tenths x"
  define f where "f = (n + 25) div 50"
  have n: "n \<le> 1000" unfolding n_def using x by (intro tenths_le_1000) simp_all
  then have f: "f \<le> 20" by (simp add: f_def)
  have fe: "nat \<lfloor>(of_nat n / 10 :: rat) / 100 * 20 + 1 / 2\<rfloor> = f"
    unfolding f_def by (rule filled_exact)
  have b1: "getBar (Text (toFixed1 x)) =
      Inr (concat (replicate f FULL) @ concat (replicate (20 - f) SHADE))"
    using getBar_text[of x] x n by (simp add: n_def f_def)
  have b3: "getBar_v3 (toFixed1 x) =
      Inr (concat (replicate f FULL) @ concat (replicate (20 - f) SHADE))"
    using getBar_v3_text[of x] x n by (simp add: n_def f_def)
  have len: "length (concat (replicate f FULL) @ concat (replicate (20 - f) SHADE)) = 20"
    using f length_bar[of f "20 - f"] by simp
  have p0: "concat (replicate f FULL) @ concat (replicate (20 - f) SHADE) = concat (replicate 20 SHADE)"
    if "(of_nat n / 10 :: rat) = 0"
  proof -
    from that have "n = 0" by simp
    then show ?thesis by (simp add: f_def)
  qed
  have p100: "concat (replicate f FULL) @ concat (replicate (20 - f) SHADE) = concat (replicate 20 FULL)"
    if "(of_nat n / 10 :: rat) = 100"
  proof -
    from that have "(of_nat n :: rat) = of_nat 1000" by simp
    then have "n = 1000" by (simp only: of_nat_eq_iff)
    then show ?thesis by (simp add: f_def)
  qed
  show ?thesis
    unfolding Let_def n_def[symmetric] fe
    using b1 b3 f len p0 p100 getBar_Zero zero_len by simp
qed

text \<open>Percent 25, 0 and 100.\<close>

theorem bar_of_percent_witness:
  "getBar (Text (toFixed1 25)) = Inr (concat (replicate 5 FULL) @ concat (replicate 15 SHADE)) \<and>
   getBar_v3 (toFixed1 25) = Inr (concat (replicate 5 FULL) @ concat (replicate 15 SHADE)) \<and>
   getBar (Text (toFixed1 0)) = Inr (concat (replicate 20 SHADE)) \<and>
   getBar_v3 (toFixed1 100) = Inr (concat (replicate 20 FULL))"
proof -
  have f25: "nat \<lfloor>(of_nat 250 / 10 :: rat) / 100 * 20 + 1 / 2\<rfloor> = 5"
    by (simp only: filled_exact)
  have f0: "nat \<lfloor>(of_nat 0 / 10 :: rat) / 100 * 20 + 1 / 2\<rfloor> = 0"
    by (simp only: filled_exact)
  have f100: "nat \<lfloor>(of_nat 1000 / 10 :: rat) / 100 * 20 + 1 / 2\<rfloor> = 20"
    by (simp only: filled_exact)
  from bar_of_percent[of 25]
  have "getBar (Text (toFixed1 25)) = Inr (concat (replicate 5 FULL) @ concat (replicate 15 SHADE)) \<and>
        getBar_v3 (toFixed1 25) = Inr (concat (replicate 5 FULL) @ concat (replicate 15 SHADE))"
    unfolding Let_def tenths_eval f25 by simp
  moreover from bar_of_percent[of 0]
  have "getBar (Text (toFixed1 0)) = Inr (concat (replicate 20 SHADE))"
    unfolding Let_def tenths_eval f0 by simp
  moreover from bar_of_percent[of 100]
  have "getBar_v3 (toFixed1 100) = Inr (concat (replicate 20 FULL))"
    unfolding Let_def tenths_eval f100 by simp
  ultimately show ?thesis by simp
qed

lemma fl_tenths_le_100:
  fixes n :: nat
  assumes "n \<le> 1000"
  shows "0 \<le> fl (of_nat n / 10)" and "fl (of_nat n / 10) \<le> 100"
proof -
  show "0 \<le> fl (of_nat n / 10)" by (rule fl_nonneg) simp
  show "fl (of_nat n / 10) \<le> 100"
  proof (cases "n = 1000")
    case True
    then show ?thesis using fl_int[of 100] by simp
  next
    case False
    with assms have "n \<le> 999" by simp
    then have "(of_nat n :: rat) \<le> of_nat 999" by (simp only: of_nat_le_iff)
    then have N: "(of_nat n :: rat) \<le> 999" by simp
    show ?thesis
    proof (cases "n = 0")
      case True
      then show ?thesis by (simp add: fl_zero)
    next
      case False
      then have "(1::rat) \<le> of_nat n" by simp
      then have "(1::rat) / 2 ^ 60 \<le> of_nat n / 10" by simp
      then have "fl (of_nat n / 10) \<le> of_nat n / 10 * (1 + 1 / 2 ^ 53)"
        by (rule fl_between(2))
      also have "\<dots> \<le> 999 / 10 * (1 + 1 / 2 ^ 53)"
        using N by (intro mult_right_mono divide_right_mono) simp_all
      also have "\<dots> \<le> 100" by simp
      finally show ?thesis .
    qed
  qed
qed

text \<open>
  Claim C9. When the bucket count is at most the total (and the total is a counter
  JavaScript holds exactly, below \<open>2^53\<close>), the percent handed to \<open>getBar\<close> converts to a
  number in \<open>[0, 100]\<close>, the number of filled cells lies in \<open>[0, 20]\<close>, and \<open>getBar\<close>
  returns a bar of exactly 20 glyphs: no repeat count is negative, no \<open>RangeError\<close>.
  The precondition holds for the four buckets of statistics whose total is their sum, as
  collection produces them.
\<close>

theorem getBar_never_throws:
  "(num \<le> total st \<and> total st < 2 ^ 53 \<longrightarrow>
     (\<exists>p. toNumber (getPercent st num) = Some p \<and> 0 \<le> p \<and> p \<le> 100 \<and>
          0 \<le> jsround (fl (p / 5)) \<and> jsround (fl (p / 5)) \<le> 20) \<and>
     (\<exists>p. parseNumber (getPercent_v3 st num) = Some p \<and> 0 \<le> p \<and> p \<le> 100 \<and>
          0 \<le> jsround (fl (fl (p / 100) * 20)) \<and> jsround (fl (fl (p / 100) * 20)) \<le> 20) \<and>
     (\<exists>bar. getBar (getPercent st num) = Inr bar \<and> length bar = 20) \<and>
     (\<exists>bar. getBar_v3 (getPercent_v3 st num) = Inr bar \<and> length bar = 20)) \<and>
   (balanced st \<longrightarrow>
      morning st \<le> total st \<and> daytime st \<le> total st \<and>
      evening st \<le> total st \<and> night st \<le> total st)"
proof (intro conjI impI)
  assume "balanced st"
  then show "morning st \<le> total st" "daytime st \<le> total st"
    "evening st \<le> total st" "night st \<le> total st"
    by (simp_all add: balanced_def)
next
  assume a: "num \<le> total st \<and> total st < 2 ^ 53"
  define x where "x = (if total st = 0 then 0 else fl (fl (of_nat num / of_nat (total st)) * 100))"
  define n where "n = tenths x"
  define f where "f = (n + 25) div 50"
  have x0: "0 \<le> x" by (simp add: x_def percent_nonneg)
  have n: "n \<le> 1000"
  proof (cases "total st = 0")
    case True
    then show ?thesis by (simp add: n_def x_def tenths_zero)
  next
    case False
    then show ?thesis
      using percent_tenths_le[of "total st" num] a by (simp add: n_def x_def)
  qed
  then have f: "f \<le> 20" by (simp add: f_def)
  have v3: "getPercent_v3 st num = toFixed1 x" by (simp add: getPercent_v3_def x_def)
  have p3: "parseNumber (getPercent_v3 st num) = Some (fl (of_nat n / 10))"
    unfolding v3 n_def by (rule parseNumber_toFixed1[OF x0])
  have r1: "jsround (fl (fl (of_nat n / 10) / 5)) = int f"
    using filled_v1[OF n] by (simp add: f_def filled_nat)
  have r3: "jsround (fl (fl (fl (of_nat n / 10) / 100) * 20)) = int f"
    using filled_v3[OF n] by (simp add: f_def filled_nat)
  have b3: "getBar_v3 (getPercent_v3 st num) =
      Inr (concat (replicate f FULL) @ concat (replicate (20 - f) SHADE))"
    unfolding v3 using getBar_v3_text[OF x0] n by (simp add: n_def f_def)
  have len: "length (concat (replicate f FULL) @ concat (replicate (20 - f) SHADE)) = 20"
    using f length_bar[of f "20 - f"] by simp
  have part3: "\<exists>p. parseNumber (getPercent_v3 st num) = Some p \<and> 0 \<le> p \<and> p \<le> 100 \<and>
          0 \<le> jsround (fl (fl (p / 100) * 20)) \<and> jsround (fl (fl (p / 100) * 20)) \<le> 20"
    using p3 fl_tenths_le_100[OF n] r3 f by simp
  have part4: "\<exists>bar. getBar_v3 (getPercent_v3 st num) = Inr bar \<and> length bar = 20"
    using b3 len by simp
  have part12: "(\<exists>p. toNumber (getPercent st num) = Some p \<and> 0 \<le> p \<and> p \<le> 100 \<and>
          0 \<le> jsround (fl (p / 5)) \<and> jsround (fl (p / 5)) \<le> 20) \<and>
     (\<exists>bar. getBar (getPercent st num) = Inr bar \<and> length bar = 20)"
  proof (cases "total st = 0")
    case True
    then have z: "getPercent st num = Zero" by (simp add: getPercent_def)
    have "toNumber Zero = Some 0" by (simp add: toNumber_def)
    moreover have "jsround (fl (0 / 5)) = 0" by (simp add: fl_zero jsround_zero)
    moreover have "length (concat (replicate 20 SHADE)) = 20"
      using length_bar[of 0 20] by simp
    ultimately show ?thesis unfolding z using getBar_Zero by simp
  next
    case False
    then have t: "getPercent st num = Text (toFixed1 x)" by (simp add: getPercent_def x_def)
    have "toNumber (getPercent st num) = Some (fl (of_nat n / 10))"
      unfolding t n_def using parseNumber_toFixed1[OF x0] by (simp add: toNumber_def)
    moreover have "getBar (getPercent st num) =
        Inr (concat (replicate f FULL) @ concat (replicate (20 - f) SHADE))"
      unfolding t using getBar_text[OF x0] n by (simp add: n_def f_def)
    ultimately show ?thesis using fl_tenths_le_100[OF n] r1 f len by simp
  qed
  show "\<exists>p. toNumber (getPercent st num) = Some p \<and> 0 \<le> p \<and> p \<le> 100 \<and>
          0 \<le> jsround (fl (p / 5)) \<and> jsround (fl (p / 5)) \<le> 20"
    using part12 by blast
  show "\<exists>p. parseNumber (getPercent_v3 st num) = Some p \<and> 0 \<le> p \<and> p \<le> 100 \<and>
          0 \<le> jsround (fl (fl (p / 100) * 20)) \<and> jsround (fl (fl (p / 100) * 20)) \<le> 20"
    by (rule part3)
  show "\<exists>bar. getBar (getPercent st num) = Inr bar \<and> length bar = 20"
    using part12 by blast
  show "\<exists>bar. getBar_v3 (getPercent_v3 st num) = Inr bar \<and> length bar = 20"
    by (rule part4)
qed

text \<open>The evening bucket of the example statistics.\<close>

theorem getBar_never_throws_witness:
  "evening example_stats \<le> total example_stats \<and> total example_stats < 2 ^ 53 \<and>
   balanced example_stats \<and>
   (\<exists>bar. getBar (getPercent example_stats (evening example_stats)) = Inr bar \<and> length bar = 20) \<and>
   (\<exists>bar. getBar_v3 (getPercent_v3 example_stats (evening example_stats)) = Inr bar \<and> length bar = 20)"
proof -
  have h: "evening example_stats \<le> total example_stats \<and> total example_stats < 2 ^ 53"
    by (simp add: example_stats_def)
  have b: "balanced example_stats"
    by (simp add: balanced_def example_stats_def)
  from getBar_never_throws[of "evening example_stats" example_stats] h b show ?thesis by blast
qed

subsection \<open>The example and the zero percent\<close>

lemma percent_example:
  "getPercent example_stats 2 = Text (asc ''50.0'')"
  "getPercent example_stats 1 = Text (asc ''25.0'')"
  "getPercent example_stats 0 = Text (asc ''0.0'')"
  "getPercent_v3 example_stats 2 = asc ''50.0''"
  "getPercent_v3 example_stats 1 = asc ''25.0''"
  "getPercent_v3 example_stats 0 = asc ''0.0''"
proof -
  have s: "toFixed1 50 = asc ''50.0''" "toFixed1 25 = asc ''25.0''" "toFixed1 0 = asc ''0.0''"
    using toFixed1_digits[of 50] toFixed1_digits[of 25] toFixed1_digits[of 0]
    by (simp_all add: tenths_eval digits_eval asc_simps)
  show "getPercent example_stats 2 = Text (asc ''50.0'')"
    "getPercent example_stats 1 = Text (asc ''25.0'')"
    "getPercent example_stats 0 = Text (asc ''0.0'')"
    "getPercent_v3 example_stats 2 = asc ''50.0''"
    "getPercent_v3 example_stats 1 = asc ''25.0''"
    "getPercent_v3 example_stats 0 = asc ''0.0''"
    unfolding getPercent_def getPercent_v3_def example_stats_def
    by (simp_all add: fl_values fl_zero s)
qed


lemma bar_example:
  "getBar (Text (asc ''50.0'')) = Inr (concat (replicate 10 FULL) @ concat (replicate 10 SHADE))"
  "getBar (Text (asc ''25.0'')) = Inr (concat (replicate 5 FULL) @ concat (replicate 15 SHADE))"
  "getBar (Text (asc ''0.0'')) = Inr (concat (replicate 0 FULL) @ concat (replicate 20 SHADE))"
  "getBar_v3 (asc ''50.0'') = Inr (concat (replicate 10 FULL) @ concat (replicate 10 SHADE))"
  "getBar_v3 (asc ''25.0'') = Inr (concat (replicate 5 FULL) @ concat (replicate 15 SHADE))"
  "getBar_v3 (asc ''0.0'') = Inr (concat (replicate 0 FULL) @ concat (replicate 20 SHADE))"
proof -
  have s: "asc ''50.0'' = toFixed1 50" "asc ''25.0'' = toFixed1 25" "asc ''0.0'' = toFixed1 0"
    using toFixed1_digits[of 50] toFixed1_digits[of 25] toFixed1_digits[of 0]
    by (simp_all add: tenths_eval digits_eval asc_simps)
  show "getBar (Text (asc ''50.0'')) = Inr (concat (replicate 10 FULL) @ concat (replicate 10 SHADE))"
    unfolding s using getBar_text[of 50] by (simp add: tenths_eval)
  show "getBar (Text (asc ''25.0'')) = Inr (concat (replicate 5 FULL) @ concat (replicate 15 SHADE))"
    unfolding s using getBar_text[of 25] by (simp add: tenths_eval)
  show "getBar (Text (asc ''0.0'')) = Inr (concat (replicate 0 FULL) @ concat (replicate 20 SHADE))"
    unfolding s using getBar_text[of 0] by (simp add: tenths_eval)
  show "getBar_v3 (asc ''50.0'') = Inr (concat (replicate 10 FULL) @ concat (replicate 10 SHADE))"
    unfolding s using getBar_v3_text[of 50] by (simp add: tenths_eval)
  show "getBar_v3 (asc ''25.0'') = Inr (concat (replicate 5 FULL) @ concat (replicate 15 SHADE))"
    unfolding s using getBar_v3_text[of 25] by (simp add: tenths_eval)
  show "getBar_v3 (asc ''0.0'') = Inr (concat (replicate 0 FULL) @ concat (replicate 20 SHADE))"
    unfolding s using getBar_v3_text[of 0] by (simp add: tenths_eval)
qed

lemma asc_percent_values:
  "asc ''50.0'' = [53, 48, 46, 48]" "asc ''25.0'' = [50, 53, 46, 48]" "asc ''0.0'' = [48, 46, 48]"
  by (simp_all add: asc_simps)

lemmas bar_example_units = bar_example[unfolded asc_percent_values]

lemmas percent_example_Suc = percent_example[unfolded One_nat_def]

lemma spaces: "replicate 2 (32::nat) = [32, 32]" "replicate 4 (32::nat) = [32, 32, 32, 32]"
  by (simp_all add: numeral_eq_Suc)

lemma countWidth_example: "countWidth example_stats = 3"
  by (simp add: countWidth_def lines_def example_stats_def digits_small)

text \<open>
  Claim C6. For the statistics \<open>morning = 2, daytime = 1, evening = 1, night = 0\<close> with
  total 4 the percentages are \<^verbatim>\<open>50.0\<close>, \<^verbatim>\<open>25.0\<close>, \<^verbatim>\<open>25.0\<close>, \<^verbatim>\<open>0.0\<close> and the bars have 10, 5,
  5 and 0 full cells out of 20, in all variants; the four text blocks are spelled out.
\<close>

theorem example_rendering:
  "getPercent example_stats (morning example_stats) = Text (asc ''50.0'') \<and>
   getPercent example_stats (daytime example_stats) = Text (asc ''25.0'') \<and>
   getPercent example_stats (evening example_stats) = Text (asc ''25.0'') \<and>
   getPercent example_stats (night example_stats) = Text (asc ''0.0'') \<and>
   getPercent_v3 example_stats (morning example_stats) = asc ''50.0'' \<and>
   getPercent_v3 example_stats (daytime example_stats) = asc ''25.0'' \<and>
   getPercent_v3 example_stats (evening example_stats) = asc ''25.0'' \<and>
   getPercent_v3 example_stats (night example_stats) = asc ''0.0'' \<and>
   getBar (getPercent example_stats (morning example_stats)) =
     Inr (concat (replicate 10 FULL) @ concat (replicate 10 SHADE)) \<and>
   getBar (getPercent example_stats (daytime example_stats)) =
     Inr (concat (replicate 5 FULL) @ concat (replicate 15 SHADE)) \<and>
   getBar (getPercent example_stats (evening example_stats)) =
     Inr (concat (replicate 5 FULL) @ concat (replicate 15 SHADE)) \<and>
   getBar (getPercent example_stats (night example_stats)) =
     Inr (concat (replicate 0 FULL) @ concat (replicate 20 SHADE)) \<and>
   getBar_v3 (getPercent_v3 example_stats (morning example_stats)) =
     Inr (concat (replicate 10 FULL) @ concat (replicate 10 SHADE)) \<and>
   getBar_v3 (getPercent_v3 example_stats (daytime example_stats)) =
     Inr (concat (replicate 5 FULL) @ concat (replicate 15 SHADE)) \<and>
   getBar_v3 (getPercent_v3 example_stats (evening example_stats)) =
     Inr (concat (replicate 5 FULL) @ concat (replicate 15 SHADE)) \<and>
   getBar_v3 (getPercent_v3 example_stats (night example_stats)) =
     Inr (concat (replicate 0 FULL) @ concat (replicate 20 SHADE)) \<and>
   fst (generateMarkdown_v2 stamp example_stats quiet_world) =
     Inr (SUN @ asc '' Morning     2 commits   '' @
            concat (replicate 10 FULL) @ concat (replicate 10 SHADE) @ asc ''    50.0%'' @ NL @
          CITY @ asc '' Daytime     1 commits   '' @
            concat (replicate 5 FULL) @ concat (replicate 15 SHADE) @ asc ''    25.0%'' @ NL @
          DUSK @ asc '' Evening     1 commits   '' @
            concat (replicate 5 FULL) @ concat (replicate 15 SHADE) @ asc ''    25.0%'' @ NL @
          MOON @ asc '' Night       0 commits   '' @
            concat (replicate 20 SHADE) @ asc ''     0.0%'' @ NL @
          asc ''> Last Updated: '' @ stamp (clock quiet_world) @ NL) \<and>
   fst (generateMarkdown_v1 stamp example_stats quiet_world) =
     Inr (SUN @ asc '' Morning    2 commits    '' @
            concat (replicate 10 FULL) @ concat (replicate 10 SHADE) @ asc ''    50.0%'' @ NL @
          CITY @ asc '' Daytime    1 commits    '' @
            concat (replicate 5 FULL) @ concat (replicate 15 SHADE) @ asc ''    25.0%'' @ NL @
          DUSK @ asc '' Evening    1 commits    '' @
            concat (replicate 5 FULL) @ concat (replicate 15 SHADE) @ asc ''    25.0%'' @ NL @
          MOON @ asc '' Night      0 commits    '' @
            concat (replicate 20 SHADE) @ asc ''    0.0%'' @ NL @
          asc ''> Last Updated: '' @ stamp (clock quiet_world) @ NL) \<and>
   fst (generateMarkdown_v3 stamp example_stats quiet_world) =
     Inr (SUN @ asc '' Morning     2 commits   '' @
            concat (replicate 10 FULL) @ concat (replicate 10 SHADE) @ NL @
          CITY @ asc '' Daytime     1 commits   '' @
            concat (replicate 5 FULL) @ concat (replicate 15 SHADE) @ NL @
          DUSK @ asc '' Evening     1 commits   '' @
            concat (replicate 5 FULL) @ concat (replicate 15 SHADE) @ NL @
          MOON @ asc '' Night       0 commits   '' @
            concat (replicate 20 SHADE) @ NL @
          asc ''> Last Updated: '' @ stamp (clock quiet_world) @ NL) \<and>
   fst (generateMarkdown_v4 stamp example_stats quiet_world) =
     fst (generateMarkdown_v3 stamp example_stats quiet_world)"
proof -
  have f: "morning example_stats = 2" "daytime example_stats = 1" "evening example_stats = 1"
    "night example_stats = 0"
    by (simp_all add: example_stats_def)
  have rows: "map (row_v2 example_stats) (lines example_stats) =
     [Inr (SUN @ asc '' Morning     2 commits   '' @
            concat (replicate 10 FULL) @ concat (replicate 10 SHADE) @ asc ''    50.0%''),
      Inr (CITY @ asc '' Daytime     1 commits   '' @
            concat (replicate 5 FULL) @ concat (replicate 15 SHADE) @ asc ''    25.0%''),
      Inr (DUSK @ asc '' Evening     1 commits   '' @
            concat (replicate 5 FULL) @ concat (replicate 15 SHADE) @ asc ''    25.0%''),
      Inr (MOON @ asc '' Night       0 commits   '' @
            concat (replicate 20 SHADE) @ asc ''     0.0%'')]"
    by (simp add: lines_def f row_v2_def Let_def percent_example percent_example_Suc
        bar_example_units countWidth_example toString_def padStart_def padEnd_def digits_small
        asc_simps spaces)
  have whole: "fst (generateMarkdown_v2 stamp example_stats quiet_world) =
     Inr (SUN @ asc '' Morning     2 commits   '' @
            concat (replicate 10 FULL) @ concat (replicate 10 SHADE) @ asc ''    50.0%'' @ NL @
          CITY @ asc '' Daytime     1 commits   '' @
            concat (replicate 5 FULL) @ concat (replicate 15 SHADE) @ asc ''    25.0%'' @ NL @
          DUSK @ asc '' Evening     1 commits   '' @
            concat (replicate 5 FULL) @ concat (replicate 15 SHADE) @ asc ''    25.0%'' @ NL @
          MOON @ asc '' Night       0 commits   '' @
            concat (replicate 20 SHADE) @ asc ''     0.0%'' @ NL @
          asc ''> Last Updated: '' @ stamp (clock quiet_world) @ NL)"
    unfolding generateMarkdown_v2_def table_def Let_def rows by simp
  have rows1:
    "[row_v1 (SUN @ asc '' Morning    '') example_stats 2,
      row_v1 (CITY @ asc '' Daytime    '') example_stats 1,
      row_v1 (DUSK @ asc '' Evening    '') example_stats 1,
      row_v1 (MOON @ asc '' Night      '') example_stats 0] =
     [Inr (SUN @ asc '' Morning    2 commits    '' @
            concat (replicate 10 FULL) @ concat (replicate 10 SHADE) @ asc ''    50.0%''),
      Inr (CITY @ asc '' Daytime    1 commits    '' @
            concat (replicate 5 FULL) @ concat (replicate 15 SHADE) @ asc ''    25.0%''),
      Inr (DUSK @ asc '' Evening    1 commits    '' @
            concat (replicate 5 FULL) @ concat (replicate 15 SHADE) @ asc ''    25.0%''),
      Inr (MOON @ asc '' Night      0 commits    '' @
            concat (replicate 20 SHADE) @ asc ''    0.0%'')]"
    by (simp add: row_v1_def percent_example percent_example_Suc bar_example_units
        toString_def digits_small asc_simps)
  have rows3: "map (row_v3 example_stats) (lines example_stats) =
     [Inr (SUN @ asc '' Morning     2 commits   '' @
            concat (replicate 10 FULL) @ concat (replicate 10 SHADE)),
      Inr (CITY @ asc '' Daytime     1 commits   '' @
            concat (replicate 5 FULL) @ concat (replicate 15 SHADE)),
      Inr (DUSK @ asc '' Evening     1 commits   '' @
            concat (replicate 5 FULL) @ concat (replicate 15 SHADE)),
      Inr (MOON @ asc '' Night       0 commits   '' @
            concat (replicate 20 SHADE))]"
    by (simp add: lines_def f row_v3_def Let_def percent_example percent_example_Suc
        bar_example_units countWidth_example padStart_def padEnd_def digits_small
        asc_simps spaces)
  have rows4: "map (row_v4 example_stats) (lines example_stats) =
      map (row_v3 example_stats) (lines example_stats)"
    unfolding rows3
    by (simp add: lines_def f row_v4_def Let_def percent_example percent_example_Suc
        bar_example_units countWidth_example padStart_def padEnd_def digits_small
        asc_simps spaces)
  have v1: "fst (generateMarkdown_v1 stamp example_stats quiet_world) =
     Inr (SUN @ asc '' Morning    2 commits    '' @
            concat (replicate 10 FULL) @ concat (replicate 10 SHADE) @ asc ''    50.0%'' @ NL @
          CITY @ asc '' Daytime    1 commits    '' @
            concat (replicate 5 FULL) @ concat (replicate 15 SHADE) @ asc ''    25.0%'' @ NL @
          DUSK @ asc '' Evening    1 commits    '' @
            concat (replicate 5 FULL) @ concat (replicate 15 SHADE) @ asc ''    25.0%'' @ NL @
          MOON @ asc '' Night      0 commits    '' @
            concat (replicate 20 SHADE) @ asc ''    0.0%'' @ NL @
          asc ''> Last Updated: '' @ stamp (clock quiet_world) @ NL)"
    unfolding generateMarkdown_v1_def Let_def f rows1 by simp
  have v3: "fst (generateMarkdown_v3 stamp example_stats quiet_world) =
     Inr (SUN @ asc '' Morning     2 commits   '' @
            concat (replicate 10 FULL) @ concat (replicate 10 SHADE) @ NL @
          CITY @ asc '' Daytime     1 commits   '' @
            concat (replicate 5 FULL) @ concat (replicate 15 SHADE) @ NL @
          DUSK @ asc '' Evening     1 commits   '' @
            concat (replicate 5 FULL) @ concat (replicate 15 SHADE) @ NL @
          MOON @ asc '' Night       0 commits   '' @
            concat (replicate 20 SHADE) @ NL @
          asc ''> Last Updated: '' @ stamp (clock quiet_world) @ NL)"
    unfolding generateMarkdown_v3_def table_def Let_def rows3 by simp
  have v4: "fst (generateMarkdown_v4 stamp example_stats quiet_world) =
     fst (generateMarkdown_v3 stamp example_stats quiet_world)"
    unfolding generateMarkdown_v4_def generateMarkdown_v3_def table_def Let_def rows4 by simp
  show ?thesis
    unfolding f using whole v1 v3 v4
    by (simp add: percent_example percent_example_Suc bar_example)
qed

text \<open>
  Claim C10. With total 0 \<open>getPercent\<close> of \<open>v1\<close> and \<open>v2\<close> returns the bare number 0, which the
  rows print as \<^verbatim>\<open>0\<close> without a decimal; with a nonzero total (counters below \<open>2^53\<close>)
  every percent is a string of digits, a point and exactly one digit, so a zero percent
  prints as \<^verbatim>\<open>0.0\<close>. In \<open>v3\<close> the zero-total percent is \<^verbatim>\<open>0.0\<close> as well.
\<close>

theorem zero_percent_formatting:
  "(total st = 0 \<longrightarrow>
      getPercent st num = Zero \<and> toString (getPercent st num) = asc ''0'' \<and>
      row_v1 label st num =
        Inr (label @ digits num @ asc '' commits    '' @ concat (replicate 20 SHADE) @ asc ''    0%'') \<and>
      row_v2 st (emoji, name, num) =
        Inr (emoji @ asc '' '' @ padEnd 7 name @ asc ''   '' @
             padStart (countWidth st) (digits num) @ asc '' commits   '' @
             concat (replicate 20 SHADE) @ asc ''       0%'') \<and>
      getPercent_v3 st num = asc ''0.0'') \<and>
   (total st \<noteq> 0 \<and> total st < 2 ^ 53 \<and> num < 2 ^ 53 \<longrightarrow>
      (\<exists>ip d. getPercent st num = Text (ip @ asc ''.'' @ [d]) \<and>
              toString (getPercent st num) = ip @ asc ''.'' @ [d] \<and>
              getPercent_v3 st num = ip @ asc ''.'' @ [d] \<and>
              ip \<noteq> [] \<and> list_all is_digit ip \<and> is_digit d) \<and>
      getPercent st 0 = Text (asc ''0.0'') \<and> getPercent_v3 st 0 = asc ''0.0'')"
proof (intro conjI impI)
  assume z: "total st = 0"
  show p: "getPercent st num = Zero" using z by (simp add: getPercent_def)
  show "toString (getPercent st num) = asc ''0''" unfolding p by (simp add: toString_def)
  show "row_v1 label st num =
        Inr (label @ digits num @ asc '' commits    '' @ concat (replicate 20 SHADE) @ asc ''    0%'')"
    by (simp add: row_v1_def p getBar_Zero toString_def asc_simps)
  show "row_v2 st (emoji, name, num) =
        Inr (emoji @ asc '' '' @ padEnd 7 name @ asc ''   '' @
             padStart (countWidth st) (digits num) @ asc '' commits   '' @
             concat (replicate 20 SHADE) @ asc ''       0%'')"
    by (simp add: row_v2_def Let_def p getBar_Zero toString_def asc_simps padStart_def spaces)
  show "getPercent_v3 st num = asc ''0.0''" using z by (simp add: getPercent_v3_def toFixed1_zero)
next
  assume range: "total st \<noteq> 0 \<and> total st < 2 ^ 53 \<and> num < 2 ^ 53"
  then have nz: "total st \<noteq> 0" by simp
  define n where "n = tenths (fl (fl (of_nat num / of_nat (total st)) * 100))"
  have d: "digits (n mod 10) = [48 + n mod 10]" by (simp add: digits_small)
  have "n mod 10 < 10" by simp
  then have dig: "is_digit (48 + n mod 10)" unfolding is_digit_def by linarith
  have g: "getPercent st num = Text (digits (n div 10) @ asc ''.'' @ [48 + n mod 10])"
    "getPercent_v3 st num = digits (n div 10) @ asc ''.'' @ [48 + n mod 10]"
    using getPercent_nonzero[OF nz, of num] unfolding n_def[symmetric] d by simp_all
  show "\<exists>ip d. getPercent st num = Text (ip @ asc ''.'' @ [d]) \<and>
              toString (getPercent st num) = ip @ asc ''.'' @ [d] \<and>
              getPercent_v3 st num = ip @ asc ''.'' @ [d] \<and>
              ip \<noteq> [] \<and> list_all is_digit ip \<and> is_digit d"
    using g digits_nonempty[of "n div 10"] digits_all_digit[of "n div 10"] dig
    by (intro exI[of _ "digits (n div 10)"] exI[of _ "48 + n mod 10"]) (simp add: toString_def)
  have "total st > 0" using nz by simp
  show "getPercent st 0 = Text (asc ''0.0'')"
    using nz by (simp add: getPercent_def fl_zero toFixed1_zero)
  show "getPercent_v3 st 0 = asc ''0.0''"
    using nz by (simp add: getPercent_v3_def fl_zero toFixed1_zero)
qed

text \<open>The zero statistics and the example statistics.\<close>

theorem zero_percent_formatting_witness:
  "toString (getPercent zero_stats 0) = asc ''0'' \<and> getPercent_v3 zero_stats 0 = asc ''0.0'' \<and>
   getPercent example_stats 0 = Text (asc ''0.0'') \<and>
   (\<exists>ip d. getPercent example_stats 1 = Text (ip @ asc ''.'' @ [d]) \<and> is_digit d)"
proof -
  have z: "total zero_stats = 0" by (simp add: zero_stats_def)
  have e: "total example_stats \<noteq> 0 \<and> total example_stats < 2 ^ 53 \<and> (1::nat) < 2 ^ 53"
    by (simp add: example_stats_def)
  from zero_percent_formatting[where st = zero_stats and num = 0 and label = "[]"
      and emoji = "[]" and name = "[]"] z
  have "toString (getPercent zero_stats 0) = asc ''0'' \<and> getPercent_v3 zero_stats 0 = asc ''0.0''"
    by blast
  moreover from zero_percent_formatting[where st = example_stats and num = 1 and label = "[]"
      and emoji = "[]" and name = "[]"] e
  have "getPercent example_stats 0 = Text (asc ''0.0'') \<and>
        (\<exists>ip d. getPercent example_stats 1 = Text (ip @ asc ''.'' @ [d]) \<and> is_digit d)"
    by blast
  ultimately show ?thesis by simp
qed

end
